theory Spec2Isabelle
  imports Complex_Main "HOL-Library.Word"
begin

section \<open>JavaScript strings and values\<close>

text \<open>
  A JavaScript string is a sequence of UTF-16 code units; \<open>length\<close>, \<open>slice\<close>, indexing and
  the regular expressions of the sources all count code units. String literals of the
  sources are ASCII and are written \<open>js ''...''\<close>.
\<close>

type_synonym jschar = "16 word"
type_synonym jsstring = "jschar list"

definition js :: "string \<Rightarrow> jsstring" where
  "js s = map of_char s"

text \<open>\<open>String(n)\<close> for a non-negative integer: its decimal digits.\<close>

fun dec :: "nat \<Rightarrow> jsstring" where
  "dec n = (if n < 10 then [of_nat (48 + n)] else dec (n div 10) @ [of_nat (48 + n mod 10)])"

declare dec.simps [simp del]

definition int_to_string :: "int \<Rightarrow> jsstring" where
  "int_to_string i = (if i < 0 then js ''-'' @ dec (nat (- i)) else dec (nat i))"

text \<open>
  The values a state can hold are the JSON-serializable ones. A number is an integer here
  (the states of the tests and of the specification hold integers only; the rendering of a
  fractional double is not modelled). An object lists its properties in enumeration order.
\<close>

datatype json =
    JNull
  | JBool bool
  | JNum int
  | JStr jsstring
  | JArr "json list"
  | JObj "(jsstring \<times> json) list"

subsection \<open>\<open>JSON.stringify\<close>\<close>

definition hex_digit :: "nat \<Rightarrow> jschar" where
  "hex_digit d = (if d < 10 then of_nat (48 + d) else of_nat (87 + d))"

definition unicode_escape :: "jschar \<Rightarrow> jsstring" where
  "unicode_escape c =
     [92, 117] @ [hex_digit (unat c div 4096 mod 16), hex_digit (unat c div 256 mod 16),
                    hex_digit (unat c div 16 mod 16), hex_digit (unat c mod 16)]"

definition is_surrogate :: "jschar \<Rightarrow> bool" where
  "is_surrogate c = (0xD800 \<le> c \<and> c \<le> 0xDFFF)"

definition is_high_surrogate :: "jschar \<Rightarrow> bool" where
  "is_high_surrogate c = (0xD800 \<le> c \<and> c \<le> 0xDBFF)"

definition is_low_surrogate :: "jschar \<Rightarrow> bool" where
  "is_low_surrogate c = (0xDC00 \<le> c \<and> c \<le> 0xDFFF)"

text \<open>
  One code unit inside a JSON string literal (QuoteJSONString of ECMAScript 2019): the
  quotation mark (34) and the reverse solidus (92) get a reverse solidus in front, the control
  characters their short or \<open>u\<close> escapes, lone surrogates their \<open>u\<close> escapes.
\<close>

definition quote_unit :: "jschar \<Rightarrow> jsstring" where
  "quote_unit c =
     (if c = 8 then [92, 98]
      else if c = 9 then [92, 116]
      else if c = 10 then [92, 110]
      else if c = 12 then [92, 102]
      else if c = 13 then [92, 114]
      else if c = 34 then [92, 34]
      else if c = 92 then [92, 92]
      else if c < 32 \<or> is_surrogate c then unicode_escape c
      else [c])"

fun quote_units :: "jsstring \<Rightarrow> jsstring" where
  "quote_units [] = []"
| "quote_units [c] = quote_unit c"
| "quote_units (c # d # ds) =
     (if is_high_surrogate c \<and> is_low_surrogate d then c # d # quote_units ds
      else quote_unit c @ quote_units (d # ds))"

definition quote_json_string :: "jsstring \<Rightarrow> jsstring" where
  "quote_json_string s = [34] @ quote_units s @ [34]"

text \<open>\<open>Array.prototype.join\<close> on strings.\<close>

fun join :: "jsstring \<Rightarrow> jsstring list \<Rightarrow> jsstring" where
  "join sep [] = []"
| "join sep [x] = x"
| "join sep (x # y # ys) = x @ sep @ join sep (y # ys)"

fun JSON_stringify :: "json \<Rightarrow> jsstring" where
  "JSON_stringify JNull = js ''null''"
| "JSON_stringify (JBool b) = (if b then js ''true'' else js ''false'')"
| "JSON_stringify (JNum i) = int_to_string i"
| "JSON_stringify (JStr s) = quote_json_string s"
| "JSON_stringify (JArr vs) = js ''['' @ join (js '','') (map JSON_stringify vs) @ js '']''"
| "JSON_stringify (JObj kvs) =
     js ''{'' @ join (js '','')
        (map (\<lambda>(k, v). quote_json_string k @ js '':'' @ JSON_stringify v) kvs) @ js ''}''"

definition isArray :: "json \<Rightarrow> bool" where
  "isArray v = (case v of JArr _ \<Rightarrow> True | _ \<Rightarrow> False)"

definition array_length :: "json \<Rightarrow> nat" where
  "array_length v = (case v of JArr vs \<Rightarrow> length vs | _ \<Rightarrow> 0)"

section \<open>The lifecycle state machine (utils/stateMachine.ts)\<close>

datatype MachineState =
  IDLE | OPTIMISTIC | GENERATING | VALIDATING | CORRECTING | GATING | SETTLED | REJECTED

record Transition =
  t_from :: MachineState
  t_event :: jsstring
  t_to :: MachineState

definition TRANSITIONS :: "Transition list" where
  "TRANSITIONS =
    [\<lparr>t_from = IDLE, t_event = js ''DISPATCH'', t_to = OPTIMISTIC\<rparr>,
     \<lparr>t_from = IDLE, t_event = js ''DISPATCH_NO_OPTIMISTIC'', t_to = GENERATING\<rparr>,
     \<lparr>t_from = OPTIMISTIC, t_event = js ''START_INFERENCE'', t_to = GENERATING\<rparr>,
     \<lparr>t_from = GENERATING, t_event = js ''RESPONSE_RECEIVED'', t_to = VALIDATING\<rparr>,
     \<lparr>t_from = GENERATING, t_event = js ''ERROR'', t_to = REJECTED\<rparr>,
     \<lparr>t_from = VALIDATING, t_event = js ''VALID'', t_to = GATING\<rparr>,
     \<lparr>t_from = VALIDATING, t_event = js ''INVALID'', t_to = CORRECTING\<rparr>,
     \<lparr>t_from = CORRECTING, t_event = js ''RETRY'', t_to = GENERATING\<rparr>,
     \<lparr>t_from = CORRECTING, t_event = js ''MAX_RETRIES'', t_to = REJECTED\<rparr>,
     \<lparr>t_from = GATING, t_event = js ''CONFIDENT'', t_to = SETTLED\<rparr>,
     \<lparr>t_from = GATING, t_event = js ''NEEDS_CONFIRMATION'', t_to = GATING\<rparr>,
     \<lparr>t_from = GATING, t_event = js ''USER_CONFIRMED'', t_to = SETTLED\<rparr>,
     \<lparr>t_from = GATING, t_event = js ''USER_REJECTED'', t_to = REJECTED\<rparr>,
     \<lparr>t_from = SETTLED, t_event = js ''RESET'', t_to = IDLE\<rparr>,
     \<lparr>t_from = REJECTED, t_event = js ''RESET'', t_to = IDLE\<rparr>]"

definition getNextState :: "MachineState \<Rightarrow> jsstring \<Rightarrow> MachineState option" where
  "getNextState from event =
     (case find (\<lambda>t. t_from t = from \<and> t_event t = event) TRANSITIONS of
        Some transition \<Rightarrow> Some (t_to transition)
      | None \<Rightarrow> None)"

subsection \<open>Confidence and destructiveness\<close>

text \<open>
  JavaScript numbers are doubles: every arithmetic operation returns the exact result
  rounded to the nearest double. The model computes over the reals and takes the rounding
  as the parameter \<open>rnd\<close>, applied after each operation in the order the source evaluates
  them; \<open>rnd = (\<lambda>x. x)\<close> is exact arithmetic. The counts (\<open>sameChars\<close>, the lengths) are
  small integers and exact.
\<close>

text \<open>The loop \<open>for (i = 0; i < min(len, len'); i++) if (prev[i] === new[i]) sameChars++\<close>.\<close>

fun sameChars :: "jsstring \<Rightarrow> jsstring \<Rightarrow> nat" where
  "sameChars (x # xs) (y # ys) = (if x = y then 1 else 0) + sameChars xs ys"
| "sameChars _ _ = 0"

definition diffRatio :: "(real \<Rightarrow> real) \<Rightarrow> json \<Rightarrow> json \<Rightarrow> real" where
  "diffRatio rnd previousState newState =
     (let prevString = JSON_stringify previousState;
          newString = JSON_stringify newState;
          maxLen = max (length prevString) (length newString)
      in rnd (1 - rnd (real (sameChars prevString newString) / real maxLen)))"

definition calculateConfidence ::
  "(real \<Rightarrow> real) \<Rightarrow> json \<Rightarrow> json \<Rightarrow> jsstring \<Rightarrow> real option \<Rightarrow> real" where
  "calculateConfidence rnd previousState newState intent modelConfidence' =
     (let modelConfidence = (case modelConfidence' of None \<Rightarrow> rnd 0.7 | Some c \<Rightarrow> c);
          dr = diffRatio rnd previousState newState;
          intentClarity = min 1 (rnd (real (length intent) / 50));
          confidence =
            rnd (rnd (rnd (modelConfidence * rnd 0.4) + rnd (rnd (1 - dr) * rnd 0.3))
                 + rnd (intentClarity * rnd 0.3))
      in max 0 (min 1 confidence))"

definition isDestructiveChange :: "(real \<Rightarrow> real) \<Rightarrow> json \<Rightarrow> json \<Rightarrow> bool" where
  "isDestructiveChange rnd previousState newState =
     (let prevSize = length (JSON_stringify previousState);
          newSize = length (JSON_stringify newState)
      in if prevSize > 50 \<and> real newSize < rnd (real prevSize * rnd 0.3) then True
         else if isArray previousState \<and> isArray newState
                 \<and> array_length previousState > 0 \<and> array_length newState = 0 then True
         else False)"

section \<open>The schema validator (validation/schemaValidator.ts)\<close>

record ValidationError =
  path :: jsstring
  message :: jsstring
  expected :: jsstring
  received :: "json option" \<comment> \<open>\<open>unknown\<close>; \<open>None\<close> is \<open>undefined\<close>\<close>

record 'a ValidationResult =
  success :: bool
  data :: "'a option" \<comment> \<open>\<open>None\<close> is \<open>null\<close>\<close>
  errors :: "ValidationError list"
  rawJson :: jsstring

text \<open>
  White space as \<open>String.prototype.trim\<close> and the class \<open>\s\<close> of regular expressions see
  it: the WhiteSpace and LineTerminator code points of ECMAScript.
\<close>

definition isWhiteSpace :: "jschar \<Rightarrow> bool" where
  "isWhiteSpace c =
     (c = 9 \<or> c = 10 \<or> c = 11 \<or> c = 12 \<or> c = 13 \<or> c = 32 \<or> c = 0xA0 \<or> c = 0x1680
      \<or> (0x2000 \<le> c \<and> c \<le> 0x200A) \<or> c = 0x2028 \<or> c = 0x2029 \<or> c = 0x202F
      \<or> c = 0x205F \<or> c = 0x3000 \<or> c = 0xFEFF)"

definition trim :: "jsstring \<Rightarrow> jsstring" where
  "trim s = rev (dropWhile isWhiteSpace (rev (dropWhile isWhiteSpace s)))"

text \<open>\<open>s.slice(a, b)\<close>: negative positions count from the end, both are clamped.\<close>

definition string_slice :: "jsstring \<Rightarrow> int \<Rightarrow> int \<Rightarrow> jsstring" where
  "string_slice s a b =
     (let n = int (length s);
          from = (if a < 0 then max (n + a) 0 else min a n);
          to = (if b < 0 then max (n + b) 0 else min b n)
      in take (nat (to - from)) (drop (nat from) s))"

text \<open>The position of the first occurrence of a substring, if there is one.\<close>

fun indexOf :: "jsstring \<Rightarrow> jsstring \<Rightarrow> nat option" where
  "indexOf pat [] = (if pat = [] then Some 0 else None)"
| "indexOf pat (c # cs) =
     (if take (length pat) (c # cs) = pat then Some 0 else map_option Suc (indexOf pat cs))"

text \<open>
  \<open>text.search(re)\<close> for a regular expression that is one character class, and
  \<open>text.lastIndexOf(c)\<close> for one character: the position, or \<open>-1\<close>.
\<close>

fun search :: "(jschar \<Rightarrow> bool) \<Rightarrow> jsstring \<Rightarrow> int" where
  "search P [] = - 1"
| "search P (c # cs) =
     (if P c then 0 else (let r = search P cs in if r = - 1 then - 1 else r + 1))"

definition lastIndexOf :: "jschar \<Rightarrow> jsstring \<Rightarrow> int" where
  "lastIndexOf c s =
     (let r = search (\<lambda>x. x = c) (rev s) in if r = - 1 then - 1 else int (length s) - 1 - r)"

text \<open>
  The first capture group of \<open>text.match(/```(?:json)?\s*([\s\S]*?)```/)\<close>, or \<open>None\<close> when
  there is no match. The match starts at the first fence (three grave accents, code unit
  96); the greedy \<open>(?:json)?\<close> and \<open>\s*\<close> take the word and all the white space after it,
  and the lazy group ends at the next fence. When no fence follows, giving back the white
  space or the word, or starting at a later grave accent, finds none either (neither the
  word nor white space holds a grave accent), so there is no match.
\<close>

definition fence :: jsstring where
  "fence = [96, 96, 96]"

definition codeBlockMatch :: "jsstring \<Rightarrow> jsstring option" where
  "codeBlockMatch text =
     (case indexOf fence text of
        None \<Rightarrow> None
      | Some i \<Rightarrow>
          (let rest = drop (i + 3) text;
               rest' = (if take 4 rest = js ''json'' then drop 4 rest else rest);
               body = dropWhile isWhiteSpace rest'
           in case indexOf fence body of
                None \<Rightarrow> None
              | Some j \<Rightarrow> Some (take j body)))"

definition extractJson :: "jsstring \<Rightarrow> jsstring" where
  "extractJson response =
     (if response = [] then []
      else
        let text = trim response;
            text = (case codeBlockMatch text of Some g \<Rightarrow> trim g | None \<Rightarrow> text);
            jsonStart = search (\<lambda>c. c = 91 \<or> c = 123) text;
            jsonEndBracket = lastIndexOf 93 text;
            jsonEndBrace = lastIndexOf 125 text;
            jsonEnd = max jsonEndBracket jsonEndBrace
        in if jsonStart \<noteq> - 1 \<and> jsonEnd \<noteq> - 1 \<and> jsonEnd > jsonStart
           then string_slice text jsonStart (jsonEnd + 1)
           else [])"

text \<open>
  A Zod schema is used through \<open>safeParse\<close> only: on a parsed value it returns the typed
  data or a list of issues. An issue has a path of property names and array indices, a
  message, and for some issue kinds the fields \<open>expected\<close> and \<open>received\<close>.
\<close>

datatype path_elem = Key jsstring | Index nat

record ZodIssue =
  issue_path :: "path_elem list"
  issue_message :: jsstring
  issue_expected :: "jsstring option"
  issue_received :: "json option"

type_synonym 'a ZodSchema = "json \<Rightarrow> ZodIssue list + 'a"

definition path_elem_string :: "path_elem \<Rightarrow> jsstring" where
  "path_elem_string e = (case e of Key k \<Rightarrow> k | Index i \<Rightarrow> dec i)"

definition validateAgainstSchema :: "'a ZodSchema \<Rightarrow> json \<Rightarrow> 'a ValidationResult" where
  "validateAgainstSchema schema d =
     (case schema d of
        Inr result_data \<Rightarrow>
          \<lparr>success = True, data = Some result_data, errors = [], rawJson = JSON_stringify d\<rparr>
      | Inl issues \<Rightarrow>
          \<lparr>success = False, data = None,
           errors = map (\<lambda>issue.
             \<lparr>path = join (js ''.'') (map path_elem_string (issue_path issue)),
              message = issue_message issue,
              expected = (case issue_expected issue of
                            None \<Rightarrow> js ''valid value''
                          | Some e \<Rightarrow> if e = [] then js ''valid value'' else e),
              received = issue_received issue\<rparr>) issues,
           rawJson = JSON_stringify d\<rparr>)"

text \<open>
  \<open>JSON.parse\<close> is the parameter \<open>JSON_parse\<close>: the parsed value, or \<open>Inl\<close> of the message
  of the SyntaxError it throws, which \<open>validateResponse\<close> catches.
\<close>

type_synonym parser = "jsstring \<Rightarrow> jsstring + json"

definition validateResponse :: "parser \<Rightarrow> jsstring \<Rightarrow> 'a ZodSchema \<Rightarrow> 'a ValidationResult" where
  "validateResponse JSON_parse response schema =
     (let jsonString = extractJson response
      in if jsonString = [] then
           \<lparr>success = False, data = None,
            errors = [\<lparr>path = [], message = js ''No JSON found in response'',
                       expected = js ''JSON object or array'',
                       received = Some (JStr (string_slice response 0 100 @ js ''...''))\<rparr>],
            rawJson = []\<rparr>
         else
           (case JSON_parse jsonString of
              Inl parseError_message \<Rightarrow>
                \<lparr>success = False, data = None,
                 errors = [\<lparr>path = [],
                            message = js ''JSON parse error: '' @ parseError_message,
                            expected = js ''Valid JSON'',
                            received = Some (JStr (string_slice jsonString 0 100 @ js ''...''))\<rparr>],
                 rawJson = jsonString\<rparr>
            | Inr parsed \<Rightarrow> validateAgainstSchema schema parsed))"

definition formatErrorsForCorrection :: "ValidationError list \<Rightarrow> jsstring" where
  "formatErrorsForCorrection errs =
     (if length errs = 0 then []
      else
        let lines = map (\<lambda>err.
              if path err \<noteq> [] then
                js ''- Field '' @ [34] @ path err @ [34] @ js '': '' @ message err
                  @ js ''. Expected: '' @ expected err @ js '', got: ''
                  @ (case received err of None \<Rightarrow> js ''undefined'' | Some v \<Rightarrow> JSON_stringify v)
              else js ''- '' @ message err) errs
        in js ''The following validation errors occurred:'' @ [10] @ join [10] lines)"

text \<open>
  A response text has the boundaries of a JSON value when an opening bracket or brace is
  followed, somewhere later, by a closing bracket or brace.
\<close>

definition is_open :: "jschar \<Rightarrow> bool" where
  "is_open c = (c = 91 \<or> c = 123)"

definition is_close :: "jschar \<Rightarrow> bool" where
  "is_close c = (c = 93 \<or> c = 125)"

fun has_boundaries :: "jsstring \<Rightarrow> bool" where
  "has_boundaries [] = False"
| "has_boundaries (c # cs) = ((is_open c \<and> list_ex is_close cs) \<or> has_boundaries cs)"

section \<open>The self-correction loop (validation/selfCorrection.ts)\<close>

subsection \<open>Numbers and optional properties\<close>

text \<open>
  A value of the type \<open>number\<close>: a finite one, an infinity or NaN. The finite ones are
  taken as reals, so that every double is among them and a comparison is exact.
  \<open>number_less\<close> is the operator \<open><\<close> and \<open>number_ge\<close> the operator \<open>>=\<close> on numbers: both
  are false when an operand is NaN.
\<close>

datatype number = Num real | PosInfinity | NegInfinity | NaN

fun number_less :: "number \<Rightarrow> number \<Rightarrow> bool" where
  "number_less (Num a) (Num b) = (a < b)"
| "number_less (Num a) PosInfinity = True"
| "number_less NegInfinity (Num b) = True"
| "number_less NegInfinity PosInfinity = True"
| "number_less _ _ = False"

definition number_ge :: "number \<Rightarrow> number \<Rightarrow> bool" where
  "number_ge a b = (a \<noteq> NaN \<and> b \<noteq> NaN \<and> \<not> number_less a b)"

text \<open>
  A key of an object of a \<open>Partial\<close> type: absent, present with the value \<open>undefined\<close>, or
  present with a value. Spreading such an object over the defaults
  (\<open>{ ...DEFAULT_CONFIG, ...config }\<close>) keeps the default for an absent key only; a key that is
  present overrides it, also with \<open>undefined\<close>. The setting that results is \<open>None\<close> when it
  is \<open>undefined\<close>. As an operand of a comparison \<open>undefined\<close> converts to NaN.
\<close>

datatype 'a property = Absent | Undefined | Present 'a

definition spread :: "'a \<Rightarrow> 'a property \<Rightarrow> 'a option" where
  "spread d p = (case p of Absent \<Rightarrow> Some d | Undefined \<Rightarrow> None | Present v \<Rightarrow> Some v)"

definition ToNumber :: "number option \<Rightarrow> number" where
  "ToNumber v = (case v of Some n \<Rightarrow> n | None \<Rightarrow> NaN)"

subsection \<open>The loop\<close>

text \<open>
  A thrown value or the reason of a rejected promise. The inference capability is
  asynchronous and has effects of its own: it is a function of the prompt and of the state
  \<open>'w\<close> of the outside world, and returns the response text, or the reason of the
  rejection, with the new state of the world. The callback \<open>onRetry\<close> acts on the same
  world. \<open>maxRetries\<close> is any number; the counter \<open>attempts\<close> starts at 0 and goes up by one,
  so it is a natural number (an increment is exact below \<open>2^53\<close>, a number of calls that no
  run reaches).
\<close>

datatype js_error = Error jsstring

type_synonym 'w inference_fn = "jsstring \<Rightarrow> 'w \<Rightarrow> (js_error + jsstring) \<times> 'w"

type_synonym 'w retry_fn = "nat \<Rightarrow> ValidationError list \<Rightarrow> 'w \<Rightarrow> 'w"

record 'w CorrectionConfig =
  maxRetries :: "number property"
  onRetry :: "'w retry_fn property"

record AttemptRecord =
  ar_response :: jsstring
  ar_errors :: "ValidationError list"
  ar_prompt :: jsstring

record 'a CorrectionResult =
  cr_success :: bool
  cr_data :: "'a option"
  cr_attempts :: nat
  cr_history :: "AttemptRecord list"

definition DEFAULT_maxRetries :: number where
  "DEFAULT_maxRetries = Num 3"

definition DEFAULT_onRetry :: "'w retry_fn" where
  "DEFAULT_onRetry attempt errs w = w"

definition buildCorrectionPrompt :: "jsstring \<Rightarrow> jsstring \<Rightarrow> ValidationError list \<Rightarrow> jsstring" where
  "buildCorrectionPrompt originalPrompt invalidResponse errs =
     (let errorDetails = formatErrorsForCorrection errs
      in js ''Your previous response was invalid JSON or did not match the required schema.''
         @ [10, 10] @ js ''PREVIOUS RESPONSE:'' @ [10]
         @ string_slice invalidResponse 0 500 @ (if length invalidResponse > 500 then js ''...'' else [])
         @ [10, 10] @ js ''VALIDATION ERRORS:'' @ [10]
         @ errorDetails
         @ [10, 10]
         @ js ''Please fix your response. Output ONLY valid JSON that matches the schema.'' @ [10]
         @ js ''Do not include any explanation or markdown formatting.'' @ [10]
         @ js ''Just output the corrected JSON.''
         @ [10, 10] @ js ''ORIGINAL REQUEST:'' @ [10]
         @ originalPrompt)"

text \<open>
  The loop \<open>while (attempts < settings.maxRetries)\<close> with its local variables \<open>attempts\<close>,
  \<open>currentPrompt\<close> and \<open>history\<close>; the \<open>break\<close> of the last attempt and the exit of the
  loop both reach the final \<open>return\<close>. \<open>settings.onRetry?.(...)\<close> calls the callback unless
  it is \<open>undefined\<close>. Nothing bounds the loop but the two comparisons with
  \<open>settings.maxRetries\<close>: a run that never returns has the value \<open>None\<close>.
\<close>

partial_function (option) correction_loop ::
  "parser \<Rightarrow> jsstring \<Rightarrow> 'a ZodSchema \<Rightarrow> 'w inference_fn \<Rightarrow> number option
   \<Rightarrow> 'w retry_fn option \<Rightarrow> nat \<Rightarrow> jsstring \<Rightarrow> AttemptRecord list \<Rightarrow> 'w
   \<Rightarrow> ((js_error + 'a CorrectionResult) \<times> 'w) option" where
  "correction_loop JSON_parse prompt schema inference maxR onR attempts currentPrompt history w =
     (if number_less (Num (real attempts)) (ToNumber maxR) then
        (case inference currentPrompt w of
           (Inl e, w1) \<Rightarrow> Some (Inl e, w1)
         | (Inr response, w1) \<Rightarrow>
             (let validation = validateResponse JSON_parse response schema;
                  history' = history @ [\<lparr>ar_response = response, ar_errors = errors validation,
                                          ar_prompt = currentPrompt\<rparr>]
              in if success validation then
                   Some (Inr \<lparr>cr_success = True, cr_data = data validation,
                               cr_attempts = attempts + 1, cr_history = history'\<rparr>, w1)
                 else if number_ge (Num (real (attempts + 1))) (ToNumber maxR) then
                   Some (Inr \<lparr>cr_success = False, cr_data = None,
                               cr_attempts = attempts + 1, cr_history = history'\<rparr>, w1)
                 else
                   correction_loop JSON_parse prompt schema inference maxR onR (attempts + 1)
                     (buildCorrectionPrompt prompt response (errors validation)) history'
                     (case onR of
                        Some f \<Rightarrow> f (attempts + 1) (errors validation) w1
                      | None \<Rightarrow> w1)))
      else Some (Inr \<lparr>cr_success = False, cr_data = None,
                       cr_attempts = attempts, cr_history = history\<rparr>, w))"

record ('a, 'w) ExecuteWithCorrectionParams =
  p_prompt :: jsstring
  p_schema :: "'a ZodSchema"
  p_inference :: "'w inference_fn"
  p_config :: "'w CorrectionConfig"

definition executeWithCorrection ::
  "parser \<Rightarrow> ('a, 'w) ExecuteWithCorrectionParams \<Rightarrow> 'w
   \<Rightarrow> ((js_error + 'a CorrectionResult) \<times> 'w) option" where
  "executeWithCorrection JSON_parse params w =
     (let settings_maxRetries = spread DEFAULT_maxRetries (maxRetries (p_config params));
          settings_onRetry = spread DEFAULT_onRetry (onRetry (p_config params))
      in correction_loop JSON_parse (p_prompt params) (p_schema params) (p_inference params)
           settings_maxRetries settings_onRetry 0 (p_prompt params) [] w)"

text \<open>
  An inference capability that counts its calls, as the mocks of the tests do: the world
  is paired with the number of calls made so far. \<open>on_world\<close> lets a callback that knows
  nothing of the counter act on the first component.
\<close>

definition counted :: "'w inference_fn \<Rightarrow> ('w \<times> nat) inference_fn" where
  "counted inference prompt wn =
     (case inference prompt (fst wn) of (r, w') \<Rightarrow> (r, (w', Suc (snd wn))))"

definition on_world :: "'w retry_fn \<Rightarrow> ('w \<times> nat) retry_fn" where
  "on_world f attempt errs wn = (f attempt errs (fst wn), snd wn)"

text \<open>
  The inference mock of the tests (\<open>mockResolvedValueOnce\<close>): the call number \<open>i\<close>, counted
  from 0, resolves to \<open>resp i\<close> whatever the prompt is, and the counter of calls goes up.
\<close>

definition seq_inference :: "(nat \<Rightarrow> jsstring) \<Rightarrow> ('w \<times> nat) inference_fn" where
  "seq_inference resp prompt wn = (Inr (resp (snd wn)), (fst wn, Suc (snd wn)))"

text \<open>A retry callback on a counted world that leaves the counter of calls alone.\<close>

definition keeps_count :: "('w \<times> nat) retry_fn \<Rightarrow> bool" where
  "keeps_count onR = (\<forall>a e wn. snd (onR a e wn) = snd wn)"

section \<open>The hook (hooks/useSemanticState.ts)\<close>

record AuditEntry =
  ae_id :: jsstring
  ae_timestamp :: nat
  ae_from :: MachineState
  ae_to :: MachineState
  ae_event :: jsstring
  ae_payload :: "json option"

record StateContext =
  sc_data :: json
  optimisticData :: "json option"
  currentIntent :: "jsstring option"
  sc_error :: "js_error option"
  retryCount :: nat
  confidence :: real
  sc_history :: "AuditEntry list"

definition createInitialContext :: "json \<Rightarrow> StateContext" where
  "createInitialContext initialData =
     \<lparr>sc_data = initialData, optimisticData = None, currentIntent = None, sc_error = None,
      retryCount = 0, confidence = 1, sc_history = []\<rparr>"

text \<open>
  What the hook reads from its surroundings, each a function of the state \<open>'w\<close> of the
  outside world: the clock \<open>Date.now()\<close>, the string
  \<open>Math.random().toString(36).slice(2, 8)\<close>, the rounding of the arithmetic of numbers, and
  \<open>JSON.parse\<close>.
\<close>

record 'w Runtime =
  Date_now :: "'w \<Rightarrow> nat \<times> 'w"
  Math_random36 :: "'w \<Rightarrow> jsstring \<times> 'w"
  rounding :: "real \<Rightarrow> real"
  JSON_parse :: parser

definition createAuditEntry ::
  "'w Runtime \<Rightarrow> MachineState \<Rightarrow> MachineState \<Rightarrow> jsstring \<Rightarrow> json option \<Rightarrow> 'w
   \<Rightarrow> AuditEntry \<times> 'w" where
  "createAuditEntry rt from to event payload w =
     (case Date_now rt w of (t1, w1) \<Rightarrow>
      case Math_random36 rt w1 of (r, w2) \<Rightarrow>
      case Date_now rt w2 of (t2, w3) \<Rightarrow>
        (\<lparr>ae_id = js ''txn_'' @ dec t1 @ js ''_'' @ r, ae_timestamp = t2,
          ae_from = from, ae_to = to, ae_event = event, ae_payload = payload\<rparr>, w3))"

text \<open>
  The context of the provider component: the merged configuration and the inference
  capability of the provider, which resolves to a response with a \<open>content\<close> or rejects.
  \<open>maxRetries\<close> is a number, as the type of the merged configuration has it. Its \<open>log\<close>
  prints when debugging is on and is left out.
\<close>

record 'w SynapseContext =
  config_confidenceThreshold :: real
  config_maxRetries :: number
  provider_inference :: "'w inference_fn"

text \<open>
  The configuration of one hook. The prompt compiler \<open>buildPrompt\<close> renders the schema, the
  current state, the intent and the context into one string; dispatch only hands that
  string to the inference capability, and the compiler with the schema built in is the
  field \<open>compile_prompt\<close>. \<open>onGate\<close> is asynchronous and may reject.
\<close>

record 'w SemanticStateConfig =
  schema :: "json ZodSchema"
  initialState :: json
  context' :: jsstring
  confidenceThreshold :: "real option"
  onChange :: "(json \<Rightarrow> json \<Rightarrow> 'w \<Rightarrow> 'w) option"
  onGate :: "(json \<Rightarrow> json \<Rightarrow> real \<Rightarrow> 'w \<Rightarrow> (js_error + bool) \<times> 'w) option"
  compile_prompt :: "json \<Rightarrow> jsstring \<Rightarrow> jsstring \<Rightarrow> jsstring"

text \<open>
  The state of the hook between renders: the committed state, the state of the machine,
  the context with the audit history, the state that waits for a confirmation, and the
  world outside. Updates queued with the setters are applied in the order they were queued.
\<close>

record 'w Hook =
  state :: json
  machineState :: MachineState
  stateContext :: StateContext
  pendingState :: "json option"
  world :: 'w

definition initial_hook :: "'w SemanticStateConfig \<Rightarrow> 'w \<Rightarrow> 'w Hook" where
  "initial_hook cfg w =
     \<lparr>state = initialState cfg, machineState = IDLE,
      stateContext = createInitialContext (initialState cfg), pendingState = None, world = w\<rparr>"

definition transition :: "'w Runtime \<Rightarrow> jsstring \<Rightarrow> json option \<Rightarrow> 'w Hook \<Rightarrow> 'w Hook" where
  "transition rt event payload h =
     (let current = machineState h
      in case getNextState current event of
           Some next \<Rightarrow>
             (case createAuditEntry rt current next event payload (world h) of
                (entry, w') \<Rightarrow>
                  h\<lparr>machineState := next,
                    stateContext := (stateContext h)\<lparr>sc_history := sc_history (stateContext h) @ [entry]\<rparr>,
                    world := w'\<rparr>)
         | None \<Rightarrow> h)"

definition set_error :: "js_error \<Rightarrow> 'w Hook \<Rightarrow> 'w Hook" where
  "set_error e h = h\<lparr>stateContext := (stateContext h)\<lparr>sc_error := Some e\<rparr>\<rparr>"

definition commit :: "'w SemanticStateConfig \<Rightarrow> json \<Rightarrow> json \<Rightarrow> 'w Hook \<Rightarrow> 'w Hook" where
  \<comment> \<open>\<open>setState(newState); onChange?.(newState, state)\<close>\<close>
  "commit cfg newState oldState h =
     (let h1 = h\<lparr>state := newState\<rparr>
      in case onChange cfg of
           None \<Rightarrow> h1
         | Some f \<Rightarrow> h1\<lparr>world := f newState oldState (world h1)\<rparr>)"

text \<open>
  A dispatch runs to its end, or stops at the promise that \<open>confirmChange\<close> or
  \<open>rejectChange\<close> resolves later; \<open>resume_dispatch\<close> is the rest of it after that.
  One dispatch is modelled: its abort signal is never set. A dispatch whose correction loop
  never returns has no result, the value \<open>None\<close>.
\<close>

datatype dispatch_status = Completed | AwaitingConfirmation

definition resume_dispatch ::
  "'w Runtime \<Rightarrow> 'w SemanticStateConfig \<Rightarrow> json \<Rightarrow> json \<Rightarrow> bool \<Rightarrow> 'w Hook \<Rightarrow> 'w Hook" where
  "resume_dispatch rt cfg newState oldState confirmed h =
     (let h1 = (if confirmed
                then transition rt (js ''USER_CONFIRMED'') None (commit cfg newState oldState h)
                else transition rt (js ''USER_REJECTED'') None h);
          h2 = h1\<lparr>pendingState := None\<rparr>
      in transition rt (js ''RESET'') None h2)"

definition dispatch ::
  "'w Runtime \<Rightarrow> 'w SynapseContext \<Rightarrow> 'w SemanticStateConfig \<Rightarrow> jsstring \<Rightarrow> 'w Hook
   \<Rightarrow> (dispatch_status \<times> 'w Hook) option" where
  "dispatch rt synapse cfg intent h =
     (let threshold = (case confidenceThreshold cfg of
                         Some t \<Rightarrow> t | None \<Rightarrow> config_confidenceThreshold synapse);
          oldState = state h;
          h1 = h\<lparr>stateContext := (stateContext h)\<lparr>currentIntent := Some intent, sc_error := None\<rparr>\<rparr>;
          h2 = transition rt (js ''DISPATCH_NO_OPTIMISTIC'') None h1;
          prompt = compile_prompt cfg oldState intent (context' cfg)
      in case executeWithCorrection (JSON_parse rt)
             \<lparr>p_prompt = prompt, p_schema = schema cfg,
              p_inference = (\<lambda>p hk. case provider_inference synapse p (world hk) of
                                       (r, w') \<Rightarrow> (r, hk\<lparr>world := w'\<rparr>)),
              p_config = \<lparr>maxRetries = Present (config_maxRetries synapse),
                          onRetry = Present (\<lambda>attempt errs hk.
                            transition rt (js ''RETRY'') None
                              (hk\<lparr>stateContext := (stateContext hk)\<lparr>retryCount := attempt\<rparr>\<rparr>))\<rparr>\<rparr>
             h2 of
           None \<Rightarrow> None
         | Some (Inl e, h3) \<Rightarrow> Some (Completed, transition rt (js ''ERROR'') None (set_error e h3))
         | Some (Inr result, h3) \<Rightarrow> Some
             (let h4 = transition rt (js ''RESPONSE_RECEIVED'') None h3
              in if \<not> cr_success result \<or> cr_data result = None \<or> cr_data result = Some JNull then
                   (Completed,
                    transition rt (js ''MAX_RETRIES'') None
                      (set_error (Error (js ''Failed to generate valid state after retries'')) h4))
                 else
                   (let h5 = transition rt (js ''VALID'') None h4;
                        newState = the (cr_data result);
                        conf = calculateConfidence (rounding rt) oldState newState intent None;
                        h6 = h5\<lparr>stateContext := (stateContext h5)\<lparr>confidence := conf\<rparr>\<rparr>;
                        isDestructive = isDestructiveChange (rounding rt) oldState newState;
                        needsGating = (conf < threshold \<or> isDestructive)
                    in if needsGating then
                         (let h7 = transition rt (js ''NEEDS_CONFIRMATION'') None h6
                          in case onGate cfg of
                               Some g \<Rightarrow>
                                 (case g newState oldState conf (world h7) of
                                    (Inl e, w') \<Rightarrow>
                                      (Completed,
                                       transition rt (js ''ERROR'') None
                                         (set_error e (h7\<lparr>world := w'\<rparr>)))
                                  | (Inr confirmed, w') \<Rightarrow>
                                      (let h8 = h7\<lparr>world := w'\<rparr>;
                                           h9 = (if confirmed
                                                 then transition rt (js ''USER_CONFIRMED'') None
                                                        (commit cfg newState oldState h8)
                                                 else transition rt (js ''USER_REJECTED'') None h8)
                                       in (Completed, transition rt (js ''RESET'') None h9)))
                             | None \<Rightarrow> (AwaitingConfirmation, h7\<lparr>pendingState := Some newState\<rparr>))
                       else
                         (let h7 = transition rt (js ''CONFIDENT'') None
                                     (commit cfg newState oldState h6)
                          in (Completed, transition rt (js ''RESET'') None h7)))))"

text \<open>
  The provider of the second end-to-end scenario: every call resolves to a response whose
  content is the same text; the world is the number of calls made.
\<close>

definition constant_provider :: "jsstring \<Rightarrow> nat inference_fn" where
  "constant_provider content prompt n = (Inr content, Suc n)"

definition fixed_runtime :: "parser \<Rightarrow> 'w Runtime" where
  \<comment> \<open>a clock and a random source that leave the world as it is\<close>
  "fixed_runtime parse =
     \<lparr>Date_now = (\<lambda>w. (0, w)), Math_random36 = (\<lambda>w. (js ''abc123'', w)),
      rounding = (\<lambda>x. x), JSON_parse = parse\<rparr>"

definition mock_synapse :: "real \<Rightarrow> number \<Rightarrow> jsstring \<Rightarrow> nat SynapseContext" where
  "mock_synapse threshold retries content =
     \<lparr>config_confidenceThreshold = threshold, config_maxRetries = retries,
      provider_inference = constant_provider content\<rparr>"

text \<open>
  The hook configuration of the end-to-end scenarios: the state is a to-do list that starts
  empty, there are no callbacks, and the schema accepts what the parser returns.
\<close>

definition todo_config :: "'w SemanticStateConfig" where
  "todo_config =
     \<lparr>schema = (\<lambda>v. Inr v), initialState = JObj [(js ''items'', JArr [])], context' = [],
      confidenceThreshold = None, onChange = None, onGate = None,
      compile_prompt = (\<lambda>currentState intent ctx. intent)\<rparr>"

section \<open>The rollback manager (class RollbackManager, rollbackManager.ts)\<close>

text \<open>
  The manager stores objects, and what a later mutation of an object does to a stored
  snapshot depends on which objects are shared. Values are therefore modelled with an
  explicit store: a value is a primitive or the address of an object, an object is an array
  or a record of properties, and the store is the list of the objects allocated so far, an
  address being a position in it. Allocation appends; a mutation in place replaces the
  object at an address.
\<close>

datatype val = VNull | VBool bool | VNum int | VStr jsstring | VRef nat

datatype hobj = HArr "val list" | HObj "(jsstring \<times> val) list"

type_synonym heap = "hobj list"

definition obj_values :: "hobj \<Rightarrow> val list" where
  "obj_values ob = (case ob of HArr vs \<Rightarrow> vs | HObj kvs \<Rightarrow> map snd kvs)"

definition with_values :: "hobj \<Rightarrow> val list \<Rightarrow> hobj" where
  "with_values ob vs = (case ob of HArr _ \<Rightarrow> HArr vs | HObj kvs \<Rightarrow> HObj (zip (map fst kvs) vs))"

text \<open>
  The clone of a value, by \<open>structuredClone\<close> or, where that is missing, by
  \<open>JSON.parse(JSON.stringify(data))\<close>: every object reachable from the value is copied into
  a newly allocated object. \<open>src\<close> is the store that is read, \<open>acc\<close> the objects allocated
  by the clone so far, which will follow \<open>src\<close> in the new store. The first argument bounds
  the depth of the references followed; \<open>None\<close> says that the value is not a finite tree of
  the store (it reaches itself, where \<open>JSON.stringify\<close> throws, or an address that is not
  allocated). An object reached twice is copied twice, as the JSON round trip does;
  \<open>structuredClone\<close> copies it once and shares the copy, which no reading of the value can
  tell apart.
\<close>

fun clone_list ::
  "(hobj list \<Rightarrow> val \<Rightarrow> (val \<times> hobj list) option) \<Rightarrow> hobj list \<Rightarrow> val list
   \<Rightarrow> (val list \<times> hobj list) option" where
  "clone_list f acc [] = Some ([], acc)"
| "clone_list f acc (v # vs) =
     (case f acc v of
        None \<Rightarrow> None
      | Some (v', acc') \<Rightarrow>
          (case clone_list f acc' vs of
             None \<Rightarrow> None
           | Some (vs', acc'') \<Rightarrow> Some (v' # vs', acc'')))"

primrec clone :: "nat \<Rightarrow> heap \<Rightarrow> hobj list \<Rightarrow> val \<Rightarrow> (val \<times> hobj list) option" where
  "clone 0 src acc v = (case v of VRef a \<Rightarrow> None | _ \<Rightarrow> Some (v, acc))"
| "clone (Suc n) src acc v =
     (case v of
        VRef a \<Rightarrow>
          (if a < length src then
             (case clone_list (clone n src) acc (obj_values (src ! a)) of
                None \<Rightarrow> None
              | Some (vs', acc') \<Rightarrow>
                  Some (VRef (length src + length acc'), acc' @ [with_values (src ! a) vs']))
           else None)
      | _ \<Rightarrow> Some (v, acc))"

definition is_primitive :: "val \<Rightarrow> bool" where
  \<comment> \<open>\<open>data === null || typeof data !== "object"\<close>\<close>
  "is_primitive v = (case v of VRef _ \<Rightarrow> False | _ \<Rightarrow> True)"

definition deepClone :: "heap \<Rightarrow> val \<Rightarrow> (val \<times> heap) option" where
  "deepClone h d =
     (if is_primitive d then Some (d, h)
      else case clone (length h) h [] d of
             None \<Rightarrow> None
           | Some (v, acc) \<Rightarrow> Some (v, h @ acc))"

text \<open>The JSON value that a value of the store stands for, read through the references.\<close>

definition prim_json :: "val \<Rightarrow> json option" where
  "prim_json v =
     (case v of VNull \<Rightarrow> Some JNull | VBool b \<Rightarrow> Some (JBool b) | VNum i \<Rightarrow> Some (JNum i)
      | VStr s \<Rightarrow> Some (JStr s) | VRef _ \<Rightarrow> None)"

definition rebuild :: "hobj \<Rightarrow> json list \<Rightarrow> json" where
  "rebuild ob ts = (case ob of HArr _ \<Rightarrow> JArr ts | HObj kvs \<Rightarrow> JObj (zip (map fst kvs) ts))"

primrec tree :: "nat \<Rightarrow> heap \<Rightarrow> val \<Rightarrow> json option" where
  "tree 0 h v = prim_json v"
| "tree (Suc n) h v =
     (case v of
        VRef a \<Rightarrow>
          (if a < length h
           then map_option (rebuild (h ! a)) (those (map (tree n h) (obj_values (h ! a))))
           else None)
      | _ \<Rightarrow> prim_json v)"

definition value_of :: "heap \<Rightarrow> val \<Rightarrow> json option" where
  "value_of h v = tree (length h) h v"

text \<open>The store \<open>H\<close> holds the objects \<open>cells\<close> at the addresses from \<open>k\<close> on.\<close>

definition agrees :: "nat \<Rightarrow> hobj list \<Rightarrow> heap \<Rightarrow> bool" where
  "agrees k cells H = (\<forall>i < length cells. k + i < length H \<and> H ! (k + i) = cells ! i)"

text \<open>
  What a program can do to the store afterwards: replace the object at an address (a
  mutation in place, such as \<open>data.items.push(4)\<close>) or allocate a new object.
\<close>

datatype mutation = Write nat hobj | Alloc hobj

fun mutate :: "mutation \<Rightarrow> heap \<Rightarrow> heap" where
  "mutate (Write a ob) h = (if a < length h then h[a := ob] else h)"
| "mutate (Alloc ob) h = h @ [ob]"

definition writes_outside :: "nat \<Rightarrow> nat \<Rightarrow> mutation list \<Rightarrow> bool" where
  \<comment> \<open>no write goes to an address from \<open>lo\<close> up to, not including, \<open>hi\<close>\<close>
  "writes_outside lo hi ms =
     list_all (\<lambda>mu. case mu of Write a _ \<Rightarrow> a < lo \<or> hi \<le> a | Alloc _ \<Rightarrow> True) ms"

record StateSnapshot =
  snap_id :: jsstring
  snap_timestamp :: nat
  snap_data :: val
  snap_intent :: jsstring

text \<open>\<open>maxSnapshots\<close> is a count of snapshots, a natural number; the default is 10.\<close>

record RollbackManagerConfig =
  cfg_maxSnapshots :: "nat option"

record RollbackManager =
  snapshots :: "StateSnapshot list"
  maxSnapshots :: nat

definition createRollbackManager :: "RollbackManagerConfig \<Rightarrow> RollbackManager" where
  "createRollbackManager cfg =
     \<lparr>snapshots = [],
      maxSnapshots = (case cfg_maxSnapshots cfg of Some n \<Rightarrow> n | None \<Rightarrow> 10)\<rparr>"

text \<open>The loop \<open>while (this.snapshots.length > this.maxSnapshots) this.snapshots.shift()\<close>.\<close>

function trim_snapshots :: "nat \<Rightarrow> StateSnapshot list \<Rightarrow> StateSnapshot list" where
  "trim_snapshots mx snaps =
     (if length snaps > mx then trim_snapshots mx (tl snaps) else snaps)"
  by pat_completeness auto
termination
  by (relation "measure (\<lambda>(mx, snaps). length snaps)") auto

declare trim_snapshots.simps [simp del]

text \<open>
  The state a method of the manager works on: the manager, the store, and the outside
  world with its clock and random source. \<open>None\<close> is the exception of a clone that fails.
\<close>

type_synonym 'w rm_state = "RollbackManager \<times> heap \<times> 'w"

definition snapshot ::
  "'w Runtime \<Rightarrow> val \<Rightarrow> jsstring \<Rightarrow> 'w rm_state \<Rightarrow> (jsstring \<times> 'w rm_state) option" where
  "snapshot rt d intent st =
     (case st of (m, h, w) \<Rightarrow>
      case Date_now rt w of (t1, w1) \<Rightarrow>
      case Math_random36 rt w1 of (r, w2) \<Rightarrow>
      case Date_now rt w2 of (t2, w3) \<Rightarrow>
      case deepClone h d of
        None \<Rightarrow> None
      | Some (copy, h') \<Rightarrow>
          (let sid = js ''snap_'' @ dec t1 @ js ''_'' @ r;
               s = \<lparr>snap_id = sid, snap_timestamp = t2, snap_data = copy, snap_intent = intent\<rparr>;
               pushed = snapshots m @ [s]
           in Some (sid, (m\<lparr>snapshots := trim_snapshots (maxSnapshots m) pushed\<rparr>, h', w3))))"

definition getLastGoodState :: "RollbackManager \<Rightarrow> heap \<Rightarrow> (val option \<times> heap) option" where
  \<comment> \<open>the inner \<open>None\<close> is \<open>null\<close>\<close>
  "getLastGoodState m h =
     (if length (snapshots m) = 0 then Some (None, h)
      else case deepClone h (snap_data (last (snapshots m))) of
             None \<Rightarrow> None
           | Some (copy, h') \<Rightarrow> Some (Some copy, h'))"

definition findIndex :: "('a \<Rightarrow> bool) \<Rightarrow> 'a list \<Rightarrow> int" where
  "findIndex P xs = (if list_ex P xs then int (length (takeWhile (\<lambda>x. \<not> P x) xs)) else - 1)"

definition rollbackTo ::
  "jsstring \<Rightarrow> RollbackManager \<Rightarrow> heap \<Rightarrow> (val option \<times> RollbackManager \<times> heap) option" where
  "rollbackTo snapshotId m h =
     (let index = findIndex (\<lambda>s. snap_id s = snapshotId) (snapshots m)
      in if index = - 1 then Some (None, m, h)
         else
           (let targetSnapshot = snapshots m ! nat index
            in case deepClone h (snap_data targetSnapshot) of
                 None \<Rightarrow> None
               | Some (copy, h') \<Rightarrow>
                   Some (Some copy, m\<lparr>snapshots := take (nat (index + 1)) (snapshots m)\<rparr>, h')))"

text \<open>\<open>steps\<close> is a count of steps, a natural number.\<close>

definition rollbackSteps ::
  "nat \<Rightarrow> RollbackManager \<Rightarrow> heap \<Rightarrow> (val option \<times> RollbackManager \<times> heap) option" where
  "rollbackSteps steps m h =
     (let targetIndex = int (length (snapshots m)) - 1 - int steps
      in if targetIndex < 0 then
           (if length (snapshots m) > 0 then
              (case deepClone h (snap_data (snapshots m ! 0)) of
                 None \<Rightarrow> None
               | Some (copy, h') \<Rightarrow> Some (Some copy, m, h'))
            else Some (None, m, h))
         else
           (let targetSnapshot = snapshots m ! nat targetIndex
            in case deepClone h (snap_data targetSnapshot) of
                 None \<Rightarrow> None
               | Some (copy, h') \<Rightarrow>
                   Some (Some copy, m\<lparr>snapshots := take (nat (targetIndex + 1)) (snapshots m)\<rparr>, h')))"

definition clear :: "RollbackManager \<Rightarrow> RollbackManager" where
  "clear m = m\<lparr>snapshots := []\<rparr>"

definition availableRollbacks :: "RollbackManager \<Rightarrow> int" where
  "availableRollbacks m = max 0 (int (length (snapshots m)) - 1)"

text \<open>A sequence of snapshot calls, each with its data and its intent.\<close>

fun snapshot_seq ::
  "'w Runtime \<Rightarrow> (val \<times> jsstring) list \<Rightarrow> 'w rm_state \<Rightarrow> 'w rm_state option" where
  "snapshot_seq rt [] st = Some st"
| "snapshot_seq rt (c # cs) st =
     (case snapshot rt (fst c) (snd c) st of
        None \<Rightarrow> None
      | Some (sid, st') \<Rightarrow> snapshot_seq rt cs st')"

text \<open>
  An application that owns a rollback manager next to the hook: the world is the manager
  and the number of inference calls. Nothing in the hook refers to the manager; the
  provider counts its calls and leaves the manager alone.
\<close>

definition beside :: "nat inference_fn \<Rightarrow> ('r \<times> nat) inference_fn" where
  "beside inference prompt w =
     (case inference prompt (snd w) of (r, n) \<Rightarrow> (r, (fst w, n)))"

text \<open>
  The runtime, the provider and the callbacks of a hook leave a part \<open>part\<close> of the world as
  it is.
\<close>

definition leave_alone ::
  "('w \<Rightarrow> 'x) \<Rightarrow> 'w Runtime \<Rightarrow> 'w SynapseContext \<Rightarrow> 'w SemanticStateConfig \<Rightarrow> bool" where
  "leave_alone part rt synapse cfg =
     ((\<forall>w. part (snd (Date_now rt w)) = part w)
      \<and> (\<forall>w. part (snd (Math_random36 rt w)) = part w)
      \<and> (\<forall>p w. part (snd (provider_inference synapse p w)) = part w)
      \<and> (\<forall>f a b w. onChange cfg = Some f \<longrightarrow> part (f a b w) = part w)
      \<and> (\<forall>g a b c w. onGate cfg = Some g \<longrightarrow> part (snd (g a b c w)) = part w))"

definition app_synapse :: "real \<Rightarrow> number \<Rightarrow> jsstring \<Rightarrow> ('r \<times> nat) SynapseContext" where
  "app_synapse threshold retries content =
     \<lparr>config_confidenceThreshold = threshold, config_maxRetries = retries,
      provider_inference = beside (constant_provider content)\<rparr>"

section \<open>Evaluation of concrete strings and values\<close>

lemmas js_eval = js_def quote_json_string_def quote_unit_def is_surrogate_def
  is_high_surrogate_def is_low_surrogate_def unicode_escape_def hex_digit_def
  int_to_string_def dec.simps

section \<open>Properties of the scorer\<close>

lemma max_min_mono: "(a::real) \<le> b \<Longrightarrow> max 0 (min 1 a) \<le> max 0 (min 1 b)"
  by (simp add: max_def min_def)

text \<open>
  Claim C9. With the previous state, the intent and the model confidence fixed, a candidate
  state whose serialized form has the smaller difference ratio never gets the smaller
  confidence. This holds for exact arithmetic and for every rounding that is monotone and
  keeps zero, that of doubles included.
\<close>

theorem calculateConfidence_antimono:
  assumes rnd: "mono rnd" and z: "rnd 0 = 0"
    and d: "diffRatio rnd previousState newState1 \<le> diffRatio rnd previousState newState2"
  shows "calculateConfidence rnd previousState newState2 intent modelConfidence
       \<le> calculateConfidence rnd previousState newState1 intent modelConfidence"
proof -
  have r3: "0 \<le> rnd 0.3" using monoD [OF rnd, of 0 "0.3"] z by simp
  let ?d1 = "diffRatio rnd previousState newState1"
  let ?d2 = "diffRatio rnd previousState newState2"
  have a: "rnd (1 - ?d2) \<le> rnd (1 - ?d1)"
    using d by (intro monoD [OF rnd]) simp
  have b: "rnd (rnd (1 - ?d2) * rnd 0.3) \<le> rnd (rnd (1 - ?d1) * rnd 0.3)"
    by (rule monoD [OF rnd]) (rule mult_right_mono [OF a r3])
  have c: "rnd (x + rnd (rnd (1 - ?d2) * rnd 0.3)) \<le> rnd (x + rnd (rnd (1 - ?d1) * rnd 0.3))" for x
    using b by (intro monoD [OF rnd]) simp
  have e: "rnd (rnd (x + rnd (rnd (1 - ?d2) * rnd 0.3)) + y)
         \<le> rnd (rnd (x + rnd (rnd (1 - ?d1) * rnd 0.3)) + y)" for x y
    using c [of x] by (intro monoD [OF rnd]) simp
  show ?thesis
    unfolding calculateConfidence_def Let_def
    by (intro max_min_mono e)
qed

theorem calculateConfidence_antimono_witness:
  "diffRatio (\<lambda>x. x) (JObj [(js ''items'', JArr [JNum 1])]) (JObj [(js ''items'', JArr [])])
     \<le> diffRatio (\<lambda>x. x) (JObj [(js ''items'', JArr [JNum 1])])
          (JObj [(js ''items'', JArr [JNum 1, JNum 2])])
   \<and> calculateConfidence (\<lambda>x. x) (JObj [(js ''items'', JArr [JNum 1])])
        (JObj [(js ''items'', JArr [JNum 1, JNum 2])]) (js ''Add two'') None
     \<le> calculateConfidence (\<lambda>x. x) (JObj [(js ''items'', JArr [JNum 1])])
        (JObj [(js ''items'', JArr [])]) (js ''Add two'') None"
proof -
  have m: "mono (\<lambda>x::real. x)" by (simp add: mono_def)
  have d: "diffRatio (\<lambda>x. x) (JObj [(js ''items'', JArr [JNum 1])]) (JObj [(js ''items'', JArr [])])
     \<le> diffRatio (\<lambda>x. x) (JObj [(js ''items'', JArr [JNum 1])])
          (JObj [(js ''items'', JArr [JNum 1, JNum 2])])"
    by (simp add: diffRatio_def js_eval)
  from calculateConfidence_antimono [OF m _ d] d show ?thesis by simp
qed

text \<open>
  Claim C2, as stated, fails: \<open>isDestructiveChange({items:[1,2,3]}, {items:[]})\<close> is false.
  Neither state is an array itself (each is an object with an array inside), and the
  previous state serializes to 17 characters, not more than 50.
\<close>

theorem isDestructiveChange_nested_counterexample:
  "\<not> (isDestructiveChange id (JObj [(js ''items'', JArr [JNum 1, JNum 2, JNum 3])])
          (JObj [(js ''items'', JArr [])]) = True
      \<and> isDestructiveChange id (JObj [(js ''items'', JArr [JNum 1])])
          (JObj [(js ''items'', JArr [JNum 1, JNum 2, JNum 3])]) = False)"
  by (simp add: isDestructiveChange_def isArray_def js_eval)

text \<open>
  Claim C2, amended: the array rule looks at the states themselves.
  \<open>isDestructiveChange([1,2,3], [])\<close> is true; \<open>isDestructiveChange({items:[1,2,3]},
  {items:[]})\<close> and \<open>isDestructiveChange({items:[1]}, {items:[1,2,3]})\<close> are false.
\<close>

theorem isDestructiveChange_examples:
  "isDestructiveChange rnd (JArr [JNum 1, JNum 2, JNum 3]) (JArr []) = True
   \<and> isDestructiveChange rnd (JObj [(js ''items'', JArr [JNum 1, JNum 2, JNum 3])])
          (JObj [(js ''items'', JArr [])]) = False
   \<and> isDestructiveChange rnd (JObj [(js ''items'', JArr [JNum 1])])
          (JObj [(js ''items'', JArr [JNum 1, JNum 2, JNum 3])]) = False"
  by (simp add: isDestructiveChange_def isArray_def array_length_def js_eval)

section \<open>Properties of the schema validator\<close>

lemma has_boundaries_iff:
  "has_boundaries s \<longleftrightarrow> (\<exists>xs a ys b zs. s = xs @ a # ys @ b # zs \<and> is_open a \<and> is_close b)"
proof
  show "has_boundaries s \<Longrightarrow> \<exists>xs a ys b zs. s = xs @ a # ys @ b # zs \<and> is_open a \<and> is_close b"
  proof (induction s)
    case Nil
    then show ?case by simp
  next
    case (Cons c cs)
    show ?case
    proof (cases "is_open c \<and> list_ex is_close cs")
      case True
      then obtain b where "b \<in> set cs" "is_close b" by (auto simp: list_ex_iff)
      then obtain ys zs where "cs = ys @ b # zs" by (auto simp: in_set_conv_decomp)
      then have "c # cs = [] @ c # ys @ b # zs" by simp
      with True \<open>is_close b\<close> show ?thesis by blast
    next
      case False
      with Cons.prems have "has_boundaries cs" by auto
      from Cons.IH [OF this] obtain xs a ys b zs
        where "cs = xs @ a # ys @ b # zs" "is_open a" "is_close b" by blast
      then have "c # cs = (c # xs) @ a # ys @ b # zs" by simp
      with \<open>is_open a\<close> \<open>is_close b\<close> show ?thesis by blast
    qed
  qed
next
  assume "\<exists>xs a ys b zs. s = xs @ a # ys @ b # zs \<and> is_open a \<and> is_close b"
  then obtain xs a ys b zs where s: "s = xs @ a # ys @ b # zs" and a: "is_open a" and b: "is_close b"
    by blast
  have "has_boundaries (xs @ a # ys @ b # zs)"
    using a b by (induction xs) (auto simp: list_ex_iff)
  with s show "has_boundaries s" by simp
qed

lemma has_boundaries_index:
  "has_boundaries s \<longleftrightarrow> (\<exists>i j. i < j \<and> j < length s \<and> is_open (s ! i) \<and> is_close (s ! j))"
proof
  assume "has_boundaries s"
  then obtain xs a ys b zs where s: "s = xs @ a # ys @ b # zs" and a: "is_open a" and b: "is_close b"
    unfolding has_boundaries_iff by blast
  have "s ! length xs = a" using s by simp
  moreover have "s ! (length xs + Suc (length ys)) = b"
    using s by (simp add: nth_append)
  ultimately show "\<exists>i j. i < j \<and> j < length s \<and> is_open (s ! i) \<and> is_close (s ! j)"
    using a b s by (intro exI [of _ "length xs"] exI [of _ "length xs + Suc (length ys)"]) simp
next
  assume "\<exists>i j. i < j \<and> j < length s \<and> is_open (s ! i) \<and> is_close (s ! j)"
  then obtain i j where ij: "i < j" "j < length s" "is_open (s ! i)" "is_close (s ! j)" by blast
  have 1: "s = take i s @ s ! i # drop (Suc i) s"
    using ij by (simp add: id_take_nth_drop)
  have 2: "drop (Suc i) s = take (j - Suc i) (drop (Suc i) s) @ s ! j # drop (Suc j) s"
    using ij id_take_nth_drop [of "j - Suc i" "drop (Suc i) s"] by (simp add: Suc_diff_Suc)
  show "has_boundaries s"
    unfolding has_boundaries_iff using 1 2 ij by metis
qed

lemma has_boundaries_take: "has_boundaries (take n s) \<Longrightarrow> has_boundaries s"
proof -
  assume "has_boundaries (take n s)"
  then obtain xs a ys b zs where t: "take n s = xs @ a # ys @ b # zs" and ab: "is_open a" "is_close b"
    unfolding has_boundaries_iff by blast
  have "s = xs @ a # ys @ b # (zs @ drop n s)"
    using append_take_drop_id [of n s] t by simp
  with ab show ?thesis unfolding has_boundaries_iff by blast
qed

lemma has_boundaries_drop: "has_boundaries (drop n s) \<Longrightarrow> has_boundaries s"
proof -
  assume "has_boundaries (drop n s)"
  then obtain xs a ys b zs where t: "drop n s = xs @ a # ys @ b # zs" and ab: "is_open a" "is_close b"
    unfolding has_boundaries_iff by blast
  have "s = (take n s @ xs) @ a # ys @ b # zs"
    using append_take_drop_id [of n s] t by simp
  with ab show ?thesis unfolding has_boundaries_iff by blast
qed

lemma has_boundaries_dropWhile: "has_boundaries (dropWhile P s) \<Longrightarrow> has_boundaries s"
  by (simp add: dropWhile_eq_drop has_boundaries_drop)

lemma trim_eq: "trim s = take (length (dropWhile isWhiteSpace s) - length (takeWhile isWhiteSpace (rev (dropWhile isWhiteSpace s)))) (dropWhile isWhiteSpace s)"
  by (simp add: trim_def dropWhile_eq_drop [of _ "rev _"] rev_drop)

lemma has_boundaries_trim: "has_boundaries (trim s) \<Longrightarrow> has_boundaries s"
  unfolding trim_eq by (blast dest: has_boundaries_take has_boundaries_dropWhile)

lemma has_boundaries_codeBlock:
  "codeBlockMatch s = Some g \<Longrightarrow> has_boundaries g \<Longrightarrow> has_boundaries s"
  unfolding codeBlockMatch_def Let_def
  by (auto split: option.splits if_splits
      dest!: has_boundaries_take has_boundaries_dropWhile has_boundaries_drop)

lemma search_found:
  "search P s \<noteq> - 1 \<Longrightarrow> \<exists>xs x ys. s = xs @ x # ys \<and> P x \<and> search P s = int (length xs)"
proof (induction s)
  case Nil
  then show ?case by simp
next
  case (Cons c cs)
  show ?case
  proof (cases "P c")
    case True
    then have "c # cs = [] @ c # cs \<and> P c \<and> search P (c # cs) = int (length ([]::jsstring))" by simp
    then show ?thesis by blast
  next
    case False
    with Cons.prems have ne: "search P cs \<noteq> - 1" by (auto simp: Let_def split: if_splits)
    from Cons.IH [OF this] obtain xs x ys where "cs = xs @ x # ys" "P x" "search P cs = int (length xs)"
      by blast
    with False ne have "c # cs = (c # xs) @ x # ys \<and> P x \<and> search P (c # cs) = int (length (c # xs))"
      by (simp add: Let_def)
    then show ?thesis by blast
  qed
qed

lemma lastIndexOf_found:
  assumes "lastIndexOf c s \<noteq> - 1"
  shows "\<exists>xs ys. s = xs @ c # ys \<and> lastIndexOf c s = int (length xs)"
proof -
  from assms have ne: "search (\<lambda>x. x = c) (rev s) \<noteq> - 1"
    by (auto simp: lastIndexOf_def Let_def split: if_splits)
  from search_found [OF this] obtain xs x ys
    where r: "rev s = xs @ x # ys" "x = c" "search (\<lambda>x. x = c) (rev s) = int (length xs)" by blast
  from r(1) have "rev (rev s) = rev (xs @ x # ys)" by simp
  then have s: "s = rev ys @ c # rev xs" using r(2) by simp
  have "length s = length xs + Suc (length ys)" using s by simp
  then have "lastIndexOf c s = int (length (rev ys))"
    using ne r(3) by (simp add: lastIndexOf_def Let_def)
  with s show ?thesis by blast
qed

lemma boundaries_found:
  assumes "is_open a" "is_close b" "s = xs @ a # ys" "s = xs' @ b # ys'" "length xs < length xs'"
  shows "has_boundaries s"
proof -
  from assms(3,4) have "xs @ a # ys = xs' @ b # ys'" by simp
  then obtain us where "(xs = xs' @ us \<and> us @ a # ys = b # ys') \<or> (xs @ us = xs' \<and> a # ys = us @ b # ys')"
    unfolding append_eq_append_conv2 by blast
  with assms(5) have us: "xs @ us = xs'" "a # ys = us @ b # ys'" by auto
  with assms(5) obtain us' where "us = a # us'" by (cases us) auto
  with us have "ys = us' @ b # ys'" by simp
  with assms show ?thesis unfolding has_boundaries_iff by blast
qed

lemma extract_core:
  assumes nb: "\<not> has_boundaries t"
  shows "\<not> (search (\<lambda>c. c = 91 \<or> c = 123) t \<noteq> - 1
          \<and> max (lastIndexOf 93 t) (lastIndexOf 125 t) \<noteq> - 1
          \<and> max (lastIndexOf 93 t) (lastIndexOf 125 t) > search (\<lambda>c. c = 91 \<or> c = 123) t)"
proof
  assume h: "search (\<lambda>c. c = 91 \<or> c = 123) t \<noteq> - 1
          \<and> max (lastIndexOf 93 t) (lastIndexOf 125 t) \<noteq> - 1
          \<and> max (lastIndexOf 93 t) (lastIndexOf 125 t) > search (\<lambda>c. c = 91 \<or> c = 123) t"
  then obtain xs a ys where st: "t = xs @ a # ys" "a = 91 \<or> a = 123"
      "search (\<lambda>c. c = 91 \<or> c = 123) t = int (length xs)"
    using search_found [of "\<lambda>c. c = 91 \<or> c = 123" t] by blast
  from h st(3) have "lastIndexOf 93 t > int (length xs) \<or> lastIndexOf 125 t > int (length xs)"
    by (auto simp: max_def split: if_splits)
  then obtain b where b: "b = 93 \<or> b = 125" "lastIndexOf b t > int (length xs)" by blast
  then have "lastIndexOf b t \<noteq> - 1" by linarith
  from lastIndexOf_found [OF this] obtain xs' ys' where
    "t = xs' @ b # ys'" "lastIndexOf b t = int (length xs')" by blast
  with b st have "has_boundaries t"
    by (intro boundaries_found [of a b t xs ys xs' ys']) (auto simp: is_open_def is_close_def)
  with nb show False by simp
qed

lemma extractJson_no_boundaries:
  assumes "\<not> has_boundaries response"
  shows "extractJson response = []"
proof (cases "response = []")
  case True
  then show ?thesis by (simp add: extractJson_def)
next
  case False
  define t where "t = (case codeBlockMatch (trim response) of Some g \<Rightarrow> trim g | None \<Rightarrow> trim response)"
  have "\<not> has_boundaries t"
    using assms unfolding t_def
    by (auto split: option.splits dest: has_boundaries_trim has_boundaries_codeBlock)
  from extract_core [OF this] show ?thesis
    using False unfolding extractJson_def Let_def t_def [symmetric] by auto
qed


lemma validateResponse_no_boundaries:
  assumes "\<not> has_boundaries response"
  shows "validateResponse P response S =
    \<lparr>success = False, data = None,
     errors = [\<lparr>path = [], message = js ''No JSON found in response'',
                expected = js ''JSON object or array'',
                received = Some (JStr (string_slice response 0 100 @ js ''...''))\<rparr>],
     rawJson = []\<rparr>"
  using extractJson_no_boundaries [OF assms] by (simp add: validateResponse_def)

lemma validateResponse_parse_error:
  assumes "extractJson response \<noteq> []" "P (extractJson response) = Inl m"
  shows "validateResponse P response S =
    \<lparr>success = False, data = None,
     errors = [\<lparr>path = [], message = js ''JSON parse error: '' @ m,
                expected = js ''Valid JSON'',
                received = Some (JStr (string_slice (extractJson response) 0 100 @ js ''...''))\<rparr>],
     rawJson = extractJson response\<rparr>"
  using assms by (simp add: validateResponse_def Let_def)

lemma validateResponse_shape:
  "success (validateResponse P response S) \<longleftrightarrow> data (validateResponse P response S) \<noteq> None"
  by (simp add: validateResponse_def validateAgainstSchema_def Let_def split: sum.splits)

lemma not_json_no_boundaries: "\<not> has_boundaries (js ''not json'')"
  by (simp add: js_def is_open_def is_close_def)

lemma extractJson_braces: "extractJson (js ''{}'') = js ''{}''"
  by (simp add: extractJson_def js_def trim_def isWhiteSpace_def codeBlockMatch_def fence_def
      lastIndexOf_def string_slice_def Let_def)

text \<open>
  Claim C6. On a string the pipeline has no exceptional exit: the result is always a
  ValidationResult, successful exactly when it carries data; the exception of
  \<open>JSON.parse\<close> is caught and becomes one error. For a response text with no opening
  bracket or brace followed by a closing one, extraction returns the empty string and
  validation fails with exactly one error, \<open>No JSON found in response\<close>.
\<close>

theorem validateResponse_failure_semantics:
  "(success (validateResponse P response S) \<longleftrightarrow> data (validateResponse P response S) \<noteq> None)
   \<and> (extractJson response \<noteq> [] \<and> P (extractJson response) = Inl m \<longrightarrow>
        validateResponse P response S =
          \<lparr>success = False, data = None,
           errors = [\<lparr>path = [], message = js ''JSON parse error: '' @ m,
                      expected = js ''Valid JSON'',
                      received = Some (JStr (string_slice (extractJson response) 0 100 @ js ''...''))\<rparr>],
           rawJson = extractJson response\<rparr>)
   \<and> (\<not> has_boundaries response \<longrightarrow>
        extractJson response = []
        \<and> validateResponse P response S =
          \<lparr>success = False, data = None,
           errors = [\<lparr>path = [], message = js ''No JSON found in response'',
                      expected = js ''JSON object or array'',
                      received = Some (JStr (string_slice response 0 100 @ js ''...''))\<rparr>],
           rawJson = []\<rparr>)"
  using validateResponse_shape [of P response S] validateResponse_parse_error [of response P m S]
    validateResponse_no_boundaries [of response P S] extractJson_no_boundaries [of response]
  by blast

theorem validateResponse_failure_semantics_witness:
  "\<not> has_boundaries (js ''not json'')
   \<and> extractJson (js ''not json'') = []
   \<and> validateResponse (\<lambda>s. Inr JNull) (js ''not json'') (\<lambda>v::json. Inr v) =
        \<lparr>success = False, data = None,
         errors = [\<lparr>path = [], message = js ''No JSON found in response'',
                    expected = js ''JSON object or array'',
                    received = Some (JStr (js ''not json...''))\<rparr>],
         rawJson = []\<rparr>
   \<and> extractJson (js ''{}'') \<noteq> []
   \<and> validateResponse (\<lambda>s. Inl (js ''Unexpected token'')) (js ''{}'') (\<lambda>v::json. Inr v) =
        \<lparr>success = False, data = None,
         errors = [\<lparr>path = [], message = js ''JSON parse error: Unexpected token'',
                    expected = js ''Valid JSON'',
                    received = Some (JStr (js ''{}...''))\<rparr>],
         rawJson = js ''{}''\<rparr>"
proof -
  have ne: "extractJson (js ''{}'') \<noteq> []" by (simp add: extractJson_braces) (simp add: js_def)
  have s1: "string_slice (js ''not json'') 0 100 @ js ''...'' = js ''not json...''"
    by (simp add: string_slice_def js_def)
  have s2: "string_slice (js ''{}'') 0 100 @ js ''...'' = js ''{}...''"
    by (simp add: string_slice_def js_def)
  have s3: "js ''JSON parse error: '' @ js ''Unexpected token'' = js ''JSON parse error: Unexpected token''"
    by (simp add: js_def)
  from validateResponse_failure_semantics
         [of "\<lambda>s. Inr JNull" "js ''not json''" "\<lambda>v::json. Inr v" "[]"]
       validateResponse_failure_semantics
         [of "\<lambda>s. Inl (js ''Unexpected token'')" "js ''{}''" "\<lambda>v::json. Inr v" "js ''Unexpected token''"]
       not_json_no_boundaries ne
  show ?thesis by (simp add: s1 s2 s3 extractJson_braces)
qed

section \<open>Properties of the self-correction loop\<close>

lemma number_less_Num: "number_less (Num (real a)) (ToNumber (Some (Num r))) = (a < nat \<lceil>r\<rceil>)"
  by (simp add: ToNumber_def) linarith

lemma number_ge_Num: "number_ge (Num (real a)) (ToNumber (Some (Num r))) = (nat \<lceil>r\<rceil> \<le> a)"
  by (simp add: ToNumber_def number_ge_def) linarith

lemma number_ge_less:
  "number_ge M (Num (real k)) \<Longrightarrow> a < k \<Longrightarrow> number_less (Num (real a)) M"
  by (cases M) (simp_all add: number_ge_def)

lemma number_ge_not_ge:
  "number_ge M (Num (real k)) \<Longrightarrow> a < k \<Longrightarrow> \<not> number_ge (Num (real a)) M"
  by (cases M) (simp_all add: number_ge_def)

text \<open>
  The loop with a finite bound \<open>r\<close> compares the counter with the whole number
  \<open>nat \<lceil>r\<rceil>\<close>.
\<close>

lemma correction_loop_Num:
  assumes "nat \<lceil>r\<rceil> = n"
  shows "correction_loop P prompt S inference (Some (Num r)) onR attempts cur hist w =
     (if attempts < n then
        (case inference cur w of
           (Inl e, w1) \<Rightarrow> Some (Inl e, w1)
         | (Inr response, w1) \<Rightarrow>
             (let validation = validateResponse P response S;
                  history' = hist @ [\<lparr>ar_response = response, ar_errors = errors validation,
                                       ar_prompt = cur\<rparr>]
              in if success validation then
                   Some (Inr \<lparr>cr_success = True, cr_data = data validation,
                               cr_attempts = attempts + 1, cr_history = history'\<rparr>, w1)
                 else if n \<le> attempts + 1 then
                   Some (Inr \<lparr>cr_success = False, cr_data = None,
                               cr_attempts = attempts + 1, cr_history = history'\<rparr>, w1)
                 else
                   correction_loop P prompt S inference (Some (Num r)) onR (attempts + 1)
                     (buildCorrectionPrompt prompt response (errors validation)) history'
                     (case onR of
                        Some f \<Rightarrow> f (attempts + 1) (errors validation) w1
                      | None \<Rightarrow> w1)))
      else Some (Inr \<lparr>cr_success = False, cr_data = None,
                       cr_attempts = attempts, cr_history = hist\<rparr>, w))"
  unfolding assms [symmetric]
  by (subst correction_loop.simps) (simp only: number_less_Num number_ge_Num)

lemma loop_all_invalid:
  assumes inv: "\<And>p w. I w \<Longrightarrow> \<exists>r w'. inference p w = (Inr r, w')
        \<and> \<not> success (validateResponse P r S) \<and> I w' \<and> cnt w' = Suc (cnt w)"
    and onr: "\<And>a e w. I w \<Longrightarrow> I (case onR of Some f \<Rightarrow> f a e w | None \<Rightarrow> w)
        \<and> cnt (case onR of Some f \<Rightarrow> f a e w | None \<Rightarrow> w) = cnt w"
    and n: "nat \<lceil>r\<rceil> = n"
  shows "attempts \<le> n \<Longrightarrow> I w \<Longrightarrow>
    \<exists>res w'. correction_loop P prompt S inference (Some (Num r)) onR attempts cur hist w
        = Some (Inr res, w')
      \<and> I w' \<and> cnt w' = cnt w + (n - attempts)
      \<and> \<not> cr_success res \<and> cr_data res = None \<and> cr_attempts res = n
      \<and> length (cr_history res) = length hist + (n - attempts)"
proof (induction "n - attempts" arbitrary: attempts cur hist w)
  case 0
  then have "attempts = n" by simp
  with 0 show ?case by (simp add: correction_loop_Num [OF n, of P prompt S inference onR n])
next
  case (Suc d)
  from Suc have lt: "attempts < n" by simp
  from inv [OF Suc.prems(2), of cur] obtain resp w1 where r: "inference cur w = (Inr resp, w1)"
    "\<not> success (validateResponse P resp S)" "I w1" "cnt w1 = Suc (cnt w)" by blast
  let ?v = "validateResponse P resp S"
  let ?h = "hist @ [\<lparr>ar_response = resp, ar_errors = errors ?v, ar_prompt = cur\<rparr>]"
  show ?case
  proof (cases "n \<le> attempts + 1")
    case True
    with lt have "n - attempts = 1" by simp
    with lt r True show ?thesis
      by (simp add: correction_loop_Num [OF n, of P prompt S inference onR attempts] Let_def)
  next
    case False
    define w2 where "w2 = (case onR of Some f \<Rightarrow> f (attempts + 1) (errors ?v) w1 | None \<Rightarrow> w1)"
    from onr [OF r(3)] have w2: "I w2" "cnt w2 = Suc (cnt w)"
      unfolding w2_def using r(4) by simp_all
    have d: "d = n - (attempts + 1)" using Suc.hyps(2) by simp
    have le: "attempts + 1 \<le> n" using lt by simp
    from Suc.hyps(1) [OF d le w2(1), of "buildCorrectionPrompt prompt resp (errors ?v)" ?h]
    obtain res w' where
      "correction_loop P prompt S inference (Some (Num r)) onR (attempts + 1)
         (buildCorrectionPrompt prompt resp (errors ?v)) ?h w2 = Some (Inr res, w')"
      "I w'" "cnt w' = cnt w2 + (n - (attempts + 1))"
      "\<not> cr_success res" "cr_data res = None" "cr_attempts res = n"
      "length (cr_history res) = length ?h + (n - (attempts + 1))" by blast
    with lt r False w2 show ?thesis
      unfolding w2_def
      by (simp add: correction_loop_Num [OF n, of P prompt S inference onR attempts] Let_def)
        linarith
  qed
qed


text \<open>
  The loop returns whenever its bound is not \<open>Infinity\<close>.
\<close>

lemma loop_total_Num:
  "nat \<lceil>r\<rceil> = n \<Longrightarrow>
    \<exists>y. correction_loop P prompt S inference (Some (Num r)) onR attempts cur hist w = Some y"
proof (induction "n - attempts" arbitrary: attempts cur hist w)
  case 0
  then show ?case by (simp add: correction_loop_Num [OF "0.prems", of P prompt S inference onR attempts])
next
  case (Suc d)
  from Suc have lt: "attempts < n" by simp
  obtain x w1 where r: "inference cur w = (x, w1)" by (cases "inference cur w")
  show ?case
  proof (cases x)
    case (Inl e)
    with lt r show ?thesis
      by (simp add: correction_loop_Num [OF Suc.prems, of P prompt S inference onR attempts])
  next
    case (Inr resp)
    let ?v = "validateResponse P resp S"
    let ?h = "hist @ [\<lparr>ar_response = resp, ar_errors = errors ?v, ar_prompt = cur\<rparr>]"
    show ?thesis
    proof (cases "success ?v \<or> n \<le> attempts + 1")
      case True
      with lt r Inr show ?thesis
        by (auto simp: correction_loop_Num [OF Suc.prems, of P prompt S inference onR attempts] Let_def)
    next
      case False
      have d: "d = n - (attempts + 1)" using Suc.hyps(2) by simp
      from Suc.hyps(1) [OF d Suc.prems]
      have "\<exists>y. correction_loop P prompt S inference (Some (Num r)) onR (attempts + 1)
          (buildCorrectionPrompt prompt resp (errors ?v)) ?h
          (case onR of Some f \<Rightarrow> f (attempts + 1) (errors ?v) w1 | None \<Rightarrow> w1) = Some y" .
      with False lt r Inr show ?thesis
        by (simp add: correction_loop_Num [OF Suc.prems, of P prompt S inference onR attempts] Let_def)
    qed
  qed
qed

lemma loop_total:
  assumes "ToNumber maxR \<noteq> PosInfinity"
  shows "\<exists>y. correction_loop P prompt S inference maxR onR attempts cur hist w = Some y"
proof (cases "ToNumber maxR")
  case (Num r)
  then have "maxR = Some (Num r)" by (cases maxR) (simp_all add: ToNumber_def)
  with loop_total_Num [of r "nat \<lceil>r\<rceil>"] show ?thesis by simp
next
  case PosInfinity
  with assms show ?thesis by simp
next
  case NegInfinity
  then show ?thesis by (subst correction_loop.simps) simp
next
  case NaN
  then show ?thesis by (subst correction_loop.simps) simp
qed

lemma loop_preserves_step:
  assumes run: "correction_loop P prompt S inference maxR onR attempts cur hist (w :: 'w)
      = Some (y :: (js_error + 'a CorrectionResult) \<times> 'w)"
  shows "(\<forall>p w. I w \<longrightarrow> I (snd (inference p w)))
      \<longrightarrow> (\<forall>a e w. I w \<longrightarrow> I (case onR of Some f \<Rightarrow> f a e w | None \<Rightarrow> w))
      \<longrightarrow> I w \<longrightarrow> I (snd y)"
proof (rule correction_loop.raw_induct [where
      P = "\<lambda>P prompt S inference maxR onR attempts cur hist w y.
            (\<forall>p w. I w \<longrightarrow> I (snd (inference p w)))
            \<longrightarrow> (\<forall>a e w. I w \<longrightarrow> I (case onR of Some f \<Rightarrow> f a e w | None \<Rightarrow> w))
            \<longrightarrow> I w \<longrightarrow> I (snd y)", OF _ run])
  fix loop :: "parser \<Rightarrow> jsstring \<Rightarrow> 'a ZodSchema \<Rightarrow> 'w inference_fn \<Rightarrow> number option
   \<Rightarrow> 'w retry_fn option \<Rightarrow> nat \<Rightarrow> jsstring \<Rightarrow> AttemptRecord list \<Rightarrow> 'w
   \<Rightarrow> ((js_error + 'a CorrectionResult) \<times> 'w) option"
  fix P prompt S inference maxR onR attempts cur hist w y
  assume IH: "\<And>P prompt S inference maxR onR attempts cur hist w y.
      loop P prompt S inference maxR onR attempts cur hist w = Some y \<Longrightarrow>
      (\<forall>p w. I w \<longrightarrow> I (snd (inference p w)))
      \<longrightarrow> (\<forall>a e w. I w \<longrightarrow> I (case onR of Some f \<Rightarrow> f a e w | None \<Rightarrow> w))
      \<longrightarrow> I w \<longrightarrow> I (snd y)"
  assume step: "(if number_less (Num (real attempts)) (ToNumber maxR) then
        (case inference cur w of
           (Inl e, w1) \<Rightarrow> Some (Inl e, w1)
         | (Inr response, w1) \<Rightarrow>
             (let validation = validateResponse P response S;
                  history' = hist @ [\<lparr>ar_response = response, ar_errors = errors validation,
                                       ar_prompt = cur\<rparr>]
              in if success validation then
                   Some (Inr \<lparr>cr_success = True, cr_data = data validation,
                               cr_attempts = attempts + 1, cr_history = history'\<rparr>, w1)
                 else if number_ge (Num (real (attempts + 1))) (ToNumber maxR) then
                   Some (Inr \<lparr>cr_success = False, cr_data = None,
                               cr_attempts = attempts + 1, cr_history = history'\<rparr>, w1)
                 else
                   loop P prompt S inference maxR onR (attempts + 1)
                     (buildCorrectionPrompt prompt response (errors validation)) history'
                     (case onR of
                        Some f \<Rightarrow> f (attempts + 1) (errors validation) w1
                      | None \<Rightarrow> w1)))
      else Some (Inr \<lparr>cr_success = False, cr_data = None,
                       cr_attempts = attempts, cr_history = hist\<rparr>, w)) = Some y"
  show "(\<forall>p w. I w \<longrightarrow> I (snd (inference p w)))
      \<longrightarrow> (\<forall>a e w. I w \<longrightarrow> I (case onR of Some f \<Rightarrow> f a e w | None \<Rightarrow> w))
      \<longrightarrow> I w \<longrightarrow> I (snd y)"
  proof (intro impI)
    assume inf: "\<forall>p w. I w \<longrightarrow> I (snd (inference p w))"
      and onr: "\<forall>a e w. I w \<longrightarrow> I (case onR of Some f \<Rightarrow> f a e w | None \<Rightarrow> w)"
      and w: "I w"
    obtain x w1 where r: "inference cur w = (x, w1)" by (cases "inference cur w")
    from inf w r have w1: "I w1" by (metis snd_conv)
    show "I (snd y)"
    proof (cases "number_less (Num (real attempts)) (ToNumber maxR)")
      case False
      with step w show ?thesis by auto
    next
      case lt: True
      show ?thesis
      proof (cases x)
        case (Inl e)
        with lt r w1 step show ?thesis by auto
      next
        case (Inr resp)
        let ?v = "validateResponse P resp S"
        let ?h = "hist @ [\<lparr>ar_response = resp, ar_errors = errors ?v, ar_prompt = cur\<rparr>]"
        let ?w2 = "case onR of Some f \<Rightarrow> f (attempts + 1) (errors ?v) w1 | None \<Rightarrow> w1"
        show ?thesis
        proof (cases "success ?v")
          case True
          with lt r Inr w1 step show ?thesis by (auto simp: Let_def)
        next
          case bad: False
          show ?thesis
          proof (cases "number_ge (Num (real (attempts + 1))) (ToNumber maxR)")
            case True
            with bad lt r Inr w1 step show ?thesis by (auto simp: Let_def)
          next
            case False
            with bad lt r Inr step have "loop P prompt S inference maxR onR (attempts + 1)
                (buildCorrectionPrompt prompt resp (errors ?v)) ?h ?w2 = Some y"
              by (simp add: Let_def)
            from IH [OF this] inf onr w1 show ?thesis by blast
          qed
        qed
      qed
    qed
  qed
qed

lemma loop_preserves:
  assumes "\<And>p w. I w \<Longrightarrow> I (snd (inference p w))"
    and "\<And>a e w. I w \<Longrightarrow> I (case onR of Some f \<Rightarrow> f a e w | None \<Rightarrow> w)"
    and "I w"
    and "correction_loop P prompt S inference maxR onR attempts cur hist w = Some (res, w')"
  shows "I w'"
  using loop_preserves_step [OF assms(4), of I] assms(1-3) by simp

lemma keeps_count_on_world: "keeps_count (on_world f)"
  by (simp add: keeps_count_def on_world_def)

lemma keeps_count_default: "keeps_count DEFAULT_onRetry"
  by (simp add: keeps_count_def DEFAULT_onRetry_def)

lemma keeps_count_settings:
  "keeps_count (\<lambda>a e w. case spread DEFAULT_onRetry (map_property on_world f) of
      Some g \<Rightarrow> g a e w | None \<Rightarrow> w)"
proof (cases f)
  case Absent
  then show ?thesis using keeps_count_default by (simp add: spread_def keeps_count_def)
next
  case Undefined
  then show ?thesis by (simp add: spread_def keeps_count_def)
next
  case (Present g)
  then show ?thesis using keeps_count_on_world [of g] by (simp add: spread_def keeps_count_def)
qed


text \<open>
  Claim C4 as stated fails for a bound that is not a whole number: with \<open>maxRetries = 2.5\<close>
  and responses that never validate the comparisons \<open>0 < 2.5\<close>, \<open>1 < 2.5\<close> and \<open>2 < 2.5\<close>
  hold, and the loop ends with the third call, at \<open>3 >= 2.5\<close>: three calls, more than
  \<open>maxRetries\<close>.
\<close>

theorem executeWithCorrection_fractional_counterexample:
  "map_option (\<lambda>(r, w, calls). calls)
      (executeWithCorrection (\<lambda>s. Inl [])
        \<lparr>p_prompt = js ''Test prompt'', p_schema = (\<lambda>v::json. Inr v),
         p_inference = counted (\<lambda>p (w::unit). (Inr (js ''not json''), w)),
         p_config = \<lparr>maxRetries = Present (Num 2.5), onRetry = Absent\<rparr>\<rparr> ((), 0))
     = Some 3
   \<and> \<not> (\<exists>res w' calls.
      executeWithCorrection (\<lambda>s. Inl [])
        \<lparr>p_prompt = js ''Test prompt'', p_schema = (\<lambda>v::json. Inr v),
         p_inference = counted (\<lambda>p (w::unit). (Inr (js ''not json''), w)),
         p_config = \<lparr>maxRetries = Present (Num 2.5), onRetry = Absent\<rparr>\<rparr> ((), 0)
        = Some (Inr (res :: json CorrectionResult), (w', calls))
      \<and> real calls \<le> 2.5)"
proof -
  let ?P = "\<lambda>s::jsstring. (Inl [] :: jsstring + json)"
  let ?S = "\<lambda>v::json. (Inr v :: ZodIssue list + json)"
  let ?inf = "counted (\<lambda>p (w::unit). (Inr (js ''not json'') :: js_error + jsstring, w))"
  have inv: "\<exists>r w'. ?inf p wn = (Inr r, w')
        \<and> \<not> success (validateResponse ?P r ?S) \<and> True \<and> snd w' = Suc (snd wn)" for p wn
    by (simp add: counted_def validateResponse_no_boundaries [OF not_json_no_boundaries])
  have onr: "True \<and> snd (case Some DEFAULT_onRetry of Some g \<Rightarrow> g a e wn | None \<Rightarrow> wn) = snd wn"
    for a e and wn :: "unit \<times> nat"
    by (simp add: DEFAULT_onRetry_def)
  have n: "nat \<lceil>2.5::real\<rceil> = 3" by simp
  have "\<exists>res w'. correction_loop ?P (js ''Test prompt'') ?S ?inf (Some (Num 2.5))
          (Some DEFAULT_onRetry) 0 (js ''Test prompt'') [] ((), 0) = Some (Inr res, w')
      \<and> True \<and> snd w' = snd ((), 0::nat) + (3 - 0)
      \<and> \<not> cr_success res \<and> cr_data res = None \<and> cr_attempts res = 3
      \<and> length (cr_history res) = length ([]::AttemptRecord list) + (3 - 0)"
    by (rule loop_all_invalid [where I = "\<lambda>_. True" and cnt = snd, OF inv onr n]) simp_all
  then obtain res wn where run:
    "correction_loop ?P (js ''Test prompt'') ?S ?inf (Some (Num 2.5))
          (Some DEFAULT_onRetry) 0 (js ''Test prompt'') [] ((), 0) = Some (Inr res, wn)"
    and cnt: "snd wn = snd ((), 0::nat) + (3 - 0)"
    by blast
  from cnt have wn: "wn = ((), 3)" by (cases wn) simp
  have "executeWithCorrection ?P
        \<lparr>p_prompt = js ''Test prompt'', p_schema = ?S, p_inference = ?inf,
         p_config = \<lparr>maxRetries = Present (Num 2.5), onRetry = Absent\<rparr>\<rparr> ((), 0)
      = Some (Inr res, ((), 3))"
    using run wn by (simp add: executeWithCorrection_def spread_def)
  then show ?thesis by simp
qed

text \<open>
  Claim C4, amended. When \<open>maxRetries\<close> is a whole number \<open>n\<close> (the configured value, or the
  default 3 when the key is absent) and every response of the inference function fails
  validation, the loop calls it at most \<open>n\<close> times (exactly that often), and returns a
  failure with \<open>data = null\<close> and one attempt record per call.
\<close>

theorem executeWithCorrection_all_invalid:
  assumes "\<forall>p w. \<exists>r w'. inference p w = (Inr r, w') \<and> \<not> success (validateResponse P r S)"
    and "spread DEFAULT_maxRetries mr = Some (Num (real n))"
  shows "\<exists>res w' calls.
      executeWithCorrection P
        \<lparr>p_prompt = prompt, p_schema = S, p_inference = counted inference,
         p_config = \<lparr>maxRetries = mr, onRetry = map_property on_world f\<rparr>\<rparr> (w, 0)
        = Some (Inr res, (w', calls))
      \<and> calls \<le> n \<and> calls = n
      \<and> \<not> cr_success res \<and> cr_data res = None
      \<and> length (cr_history res) = calls \<and> cr_attempts res = calls"
proof -
  define onR where "onR = spread DEFAULT_onRetry (map_property on_world f)"
  have kc: "keeps_count (\<lambda>a e w. case onR of Some g \<Rightarrow> g a e w | None \<Rightarrow> w)"
    unfolding onR_def by (rule keeps_count_settings)
  have inv: "\<exists>r w'. counted inference p wn = (Inr r, w')
        \<and> \<not> success (validateResponse P r S) \<and> True \<and> snd w' = Suc (snd wn)" for p wn
  proof -
    from assms(1) obtain r w1 where "inference p (fst wn) = (Inr r, w1)"
      "\<not> success (validateResponse P r S)" by blast
    then show ?thesis by (simp add: counted_def)
  qed
  have onr: "True \<and> snd (case onR of Some g \<Rightarrow> g a e wn | None \<Rightarrow> wn) = snd wn" for a e wn
    using kc unfolding keeps_count_def by blast
  have n: "nat \<lceil>real n\<rceil> = n" by simp
  have "\<exists>res w'. correction_loop P prompt S (counted inference) (Some (Num (real n))) onR 0 prompt []
          (w, 0) = Some (Inr res, w')
      \<and> True \<and> snd w' = snd (w, 0::nat) + (n - 0)
      \<and> \<not> cr_success res \<and> cr_data res = None \<and> cr_attempts res = n
      \<and> length (cr_history res) = length ([]::AttemptRecord list) + (n - 0)"
    by (rule loop_all_invalid [where I = "\<lambda>_. True" and cnt = snd, OF inv onr n]) simp_all
  then obtain res wn where run:
    "correction_loop P prompt S (counted inference) (Some (Num (real n))) onR 0 prompt [] (w, 0)
      = Some (Inr res, wn)"
    and cnt: "snd wn = snd (w, 0::nat) + (n - 0)"
    and res: "\<not> cr_success res" "cr_data res = None" "cr_attempts res = n"
    and len: "length (cr_history res) = length ([]::AttemptRecord list) + (n - 0)"
    by blast
  obtain w' calls where wn: "wn = (w', calls)" by (cases wn)
  with cnt have calls: "calls = n" by simp
  have "executeWithCorrection P
        \<lparr>p_prompt = prompt, p_schema = S, p_inference = counted inference,
         p_config = \<lparr>maxRetries = mr, onRetry = map_property on_world f\<rparr>\<rparr> (w, 0)
        = Some (Inr res, (w', calls))"
    using run wn assms(2) by (simp add: executeWithCorrection_def onR_def)
  moreover have "length (cr_history res) = calls" using len calls by simp
  ultimately show ?thesis
    using res calls by blast
qed


theorem executeWithCorrection_all_invalid_witness:
  "\<exists>res w' calls.
      executeWithCorrection (\<lambda>s. Inl [])
        \<lparr>p_prompt = js ''Test prompt'', p_schema = (\<lambda>v::json. Inr v),
         p_inference = counted (\<lambda>p (w::unit). (Inr (js ''not json''), w)),
         p_config = \<lparr>maxRetries = Present (Num 2), onRetry = map_property on_world Absent\<rparr>\<rparr>
        ((), 0)
        = Some (Inr (res :: json CorrectionResult), (w', calls))
      \<and> calls \<le> 2 \<and> calls = 2 \<and> \<not> cr_success res \<and> cr_data res = None
      \<and> length (cr_history res) = calls \<and> cr_attempts res = calls"
proof -
  have a1: "\<forall>p (w::unit). \<exists>r w'. (\<lambda>p w. (Inr (js ''not json''), w)) p w = (Inr r, w')
      \<and> \<not> success (validateResponse (\<lambda>s. Inl []) r (\<lambda>v::json. Inr v))"
    by (simp add: validateResponse_no_boundaries [OF not_json_no_boundaries])
  have a2: "spread DEFAULT_maxRetries (Present (Num 2)) = Some (Num (real 2))"
    by (simp add: spread_def)
  from executeWithCorrection_all_invalid [OF a1 a2, of "js ''Test prompt''" Absent "()"]
  show ?thesis by simp
qed

lemma loop_first_valid:
  assumes ok: "success (validateResponse P (resp (k - 1)) S)"
    and kc: "keeps_count (\<lambda>a e w. case onR of Some g \<Rightarrow> g a e w | None \<Rightarrow> w)"
    and km: "number_ge (ToNumber maxR) (Num (real k))"
  shows "a < k \<Longrightarrow> \<forall>i. a \<le> i \<and> i < k - 1 \<longrightarrow> \<not> success (validateResponse P (resp i) S) \<Longrightarrow>
    \<exists>w' h. correction_loop P prompt S (seq_inference resp) maxR onR a cur hist (w, a)
        = Some (Inr \<lparr>cr_success = True, cr_data = data (validateResponse P (resp (k - 1)) S),
                cr_attempts = k, cr_history = hist @ h\<rparr>, (w', k))
      \<and> map ar_response h = map resp [a..<k]"
proof (induction "k - 1 - a" arbitrary: a cur hist w)
  case 0
  then have ka: "k = a + 1" by simp
  have lt: "number_less (Num (real a)) (ToNumber maxR)"
    using number_ge_less [OF km] "0.prems"(1) .
  let ?v = "validateResponse P (resp a) S"
  have ok': "success ?v" using ok ka by simp
  have "correction_loop P prompt S (seq_inference resp) maxR onR a cur hist (w, a)
        = Some (Inr \<lparr>cr_success = True, cr_data = data ?v, cr_attempts = a + 1,
                cr_history = hist @ [\<lparr>ar_response = resp a, ar_errors = errors ?v, ar_prompt = cur\<rparr>]\<rparr>,
           (w, a + 1))"
    using lt ok'
    by (subst correction_loop.simps) (simp add: seq_inference_def Let_def)
  moreover have "map ar_response [\<lparr>ar_response = resp a, ar_errors = errors ?v, ar_prompt = cur\<rparr>]
      = map resp [a..<a + 1]"
    by simp
  ultimately show ?case unfolding ka by (metis add_diff_cancel_right')
next
  case (Suc d)
  then have a: "a < k - 1" by simp
  have lt: "number_less (Num (real a)) (ToNumber maxR)"
    using number_ge_less [OF km] Suc.prems(1) .
  have lt': "a + 1 < k" using a by simp
  have nge: "\<not> number_ge (Num (real (a + 1))) (ToNumber maxR)"
    using number_ge_not_ge [OF km lt'] .
  let ?v = "validateResponse P (resp a) S"
  let ?h = "hist @ [\<lparr>ar_response = resp a, ar_errors = errors ?v, ar_prompt = cur\<rparr>]"
  have bad: "\<not> success ?v" using Suc.prems(2) a by simp
  obtain w2 n2 where on: "(case onR of Some g \<Rightarrow> g (a + 1) (errors ?v) (w, Suc a) | None \<Rightarrow> (w, Suc a))
      = (w2, n2)"
    by (cases "case onR of Some g \<Rightarrow> g (a + 1) (errors ?v) (w, Suc a) | None \<Rightarrow> (w, Suc a)")
  from kc have "snd (case onR of Some g \<Rightarrow> g (a + 1) (errors ?v) (w, Suc a) | None \<Rightarrow> (w, Suc a))
      = snd (w, Suc a)"
    unfolding keeps_count_def by blast
  with on have n2: "n2 = Suc a" by simp
  have d: "d = k - 1 - (a + 1)" using Suc.hyps(2) by simp
  have rest: "\<forall>i. a + 1 \<le> i \<and> i < k - 1 \<longrightarrow> \<not> success (validateResponse P (resp i) S)"
    using Suc.prems(2) by simp
  from Suc.hyps(1) [OF d lt' rest, of "buildCorrectionPrompt prompt (resp a) (errors ?v)" ?h w2]
  obtain w' h where h:
    "correction_loop P prompt S (seq_inference resp) maxR onR (a + 1)
        (buildCorrectionPrompt prompt (resp a) (errors ?v)) ?h (w2, a + 1)
      = Some (Inr \<lparr>cr_success = True, cr_data = data (validateResponse P (resp (k - 1)) S),
              cr_attempts = k, cr_history = ?h @ h\<rparr>, (w', k))"
    "map ar_response h = map resp [a + 1..<k]" by blast
  have "correction_loop P prompt S (seq_inference resp) maxR onR a cur hist (w, a)
      = correction_loop P prompt S (seq_inference resp) maxR onR (a + 1)
        (buildCorrectionPrompt prompt (resp a) (errors ?v)) ?h (w2, a + 1)"
    using lt bad nge on n2
    by (subst correction_loop.simps) (simp add: seq_inference_def Let_def)
  with h(1) have "correction_loop P prompt S (seq_inference resp) maxR onR a cur hist (w, a)
      = Some (Inr \<lparr>cr_success = True, cr_data = data (validateResponse P (resp (k - 1)) S),
              cr_attempts = k,
              cr_history = hist @ (\<lparr>ar_response = resp a, ar_errors = errors ?v, ar_prompt = cur\<rparr> # h)\<rparr>,
         (w', k))"
    by simp
  moreover have "map ar_response (\<lparr>ar_response = resp a, ar_errors = errors ?v, ar_prompt = cur\<rparr> # h)
      = map resp [a..<k]"
    using h(2) lt' by (simp add: upt_rec [of a k])
  ultimately show ?case by blast
qed


text \<open>
  Claim C5. When the response number \<open>k\<close> (counted from 1, \<open>maxRetries >= k\<close> for the
  configured number or the default 3) of the inference sequence is the first that passes
  validation, the loop returns success with the validated data of that response and the
  attempt count \<open>k\<close>; the history holds the \<open>k\<close> responses in order, and the inference
  capability has been called \<open>k\<close> times when the loop returns.
\<close>

theorem executeWithCorrection_first_valid:
  assumes "0 < k"
    and "number_ge (ToNumber (spread DEFAULT_maxRetries mr)) (Num (real k))"
    and "\<forall>i < k - 1. \<not> success (validateResponse P (resp i) S)"
    and "success (validateResponse P (resp (k - 1)) S)"
  shows "\<exists>w' h.
      executeWithCorrection P
        \<lparr>p_prompt = prompt, p_schema = S, p_inference = seq_inference resp,
         p_config = \<lparr>maxRetries = mr, onRetry = map_property on_world f\<rparr>\<rparr> (w, 0)
        = Some (Inr \<lparr>cr_success = True, cr_data = data (validateResponse P (resp (k - 1)) S),
                cr_attempts = k, cr_history = h\<rparr>, (w', k))
      \<and> map ar_response h = map resp [0..<k]"
proof -
  define onR where "onR = spread DEFAULT_onRetry (map_property on_world f)"
  have kc: "keeps_count (\<lambda>a e w. case onR of Some g \<Rightarrow> g a e w | None \<Rightarrow> w)"
    unfolding onR_def by (rule keeps_count_settings)
  have bad: "\<forall>i. 0 \<le> i \<and> i < k - 1 \<longrightarrow> \<not> success (validateResponse P (resp i) S)"
    using assms(3) by simp
  from loop_first_valid [OF assms(4) kc assms(2) assms(1) bad, of prompt prompt "[]" w]
  obtain w' h where
    "correction_loop P prompt S (seq_inference resp) (spread DEFAULT_maxRetries mr) onR 0 prompt []
        (w, 0)
        = Some (Inr \<lparr>cr_success = True, cr_data = data (validateResponse P (resp (k - 1)) S),
                cr_attempts = k, cr_history = [] @ h\<rparr>, (w', k))"
    "map ar_response h = map resp [0..<k]" by blast
  then have "executeWithCorrection P
        \<lparr>p_prompt = prompt, p_schema = S, p_inference = seq_inference resp,
         p_config = \<lparr>maxRetries = mr, onRetry = map_property on_world f\<rparr>\<rparr> (w, 0)
        = Some (Inr \<lparr>cr_success = True, cr_data = data (validateResponse P (resp (k - 1)) S),
                cr_attempts = k, cr_history = h\<rparr>, (w', k))
      \<and> map ar_response h = map resp [0..<k]"
    by (simp add: executeWithCorrection_def onR_def)
  then show ?thesis by blast
qed

theorem executeWithCorrection_first_valid_witness:
  "\<exists>w' h.
      executeWithCorrection (\<lambda>s. Inr (JObj []))
        \<lparr>p_prompt = js ''Test prompt'', p_schema = (\<lambda>v::json. Inr v),
         p_inference = seq_inference (\<lambda>i. if i = 0 then js ''not json'' else js ''{}''),
         p_config = \<lparr>maxRetries = Present (Num 3), onRetry = map_property on_world Absent\<rparr>\<rparr>
        ((), 0)
        = Some (Inr \<lparr>cr_success = True, cr_data = Some (JObj []), cr_attempts = 2, cr_history = h\<rparr>,
           (w', 2))
      \<and> map ar_response h = [js ''not json'', js ''{}'']"
proof -
  let ?P = "\<lambda>s::jsstring. (Inr (JObj []) :: jsstring + json)"
  let ?S = "\<lambda>v::json. (Inr v :: ZodIssue list + json)"
  let ?resp = "\<lambda>i::nat. if i = 0 then js ''not json'' else js ''{}''"
  have v2: "validateResponse ?P (js ''{}'') ?S
      = \<lparr>success = True, data = Some (JObj []), errors = [], rawJson = JSON_stringify (JObj [])\<rparr>"
  proof -
    have "js ''{}'' \<noteq> []" by (simp add: js_def)
    then show ?thesis
      by (simp add: validateResponse_def extractJson_braces validateAgainstSchema_def)
  qed
  have a1: "(0::nat) < 2" by simp
  have a2: "number_ge (ToNumber (spread DEFAULT_maxRetries (Present (Num 3)))) (Num (real 2))"
    by (simp add: spread_def ToNumber_def number_ge_def)
  have a3: "\<forall>i < (2::nat) - 1. \<not> success (validateResponse ?P (?resp i) ?S)"
    by (simp add: validateResponse_no_boundaries [OF not_json_no_boundaries])
  have a4: "success (validateResponse ?P (?resp (2 - 1)) ?S)"
    by (simp add: v2)
  have upt: "[0..<2::nat] = [0, 1]" by (simp add: upt_rec)
  from executeWithCorrection_first_valid [OF a1 a2 a3 a4, of "js ''Test prompt''" Absent "()"]
  show ?thesis by (simp add: v2 upt)
qed

section \<open>Properties of the hook\<close>

lemma next_states:
  "getNextState IDLE (js ''DISPATCH_NO_OPTIMISTIC'') = Some GENERATING"
  "getNextState GENERATING (js ''RETRY'') = None"
  "getNextState GENERATING (js ''RESPONSE_RECEIVED'') = Some VALIDATING"
  "getNextState VALIDATING (js ''MAX_RETRIES'') = None"
  by (simp_all add: getNextState_def TRANSITIONS_def js_def)

lemma transition_fixed_runtime:
  "machineState (transition (fixed_runtime P) ev pl h)
     = (case getNextState (machineState h) ev of Some n \<Rightarrow> n | None \<Rightarrow> machineState h)"
  "world (transition (fixed_runtime P) ev pl h) = world h"
  by (simp_all add: transition_def fixed_runtime_def createAuditEntry_def Let_def
      split: option.splits)

text \<open>
  Claim C1. With a provider that always answers \<open>not json\<close> and \<open>maxRetries = 3\<close>, a dispatch
  from the initial state ends after exactly 3 inference calls, but the state machine is
  then in VALIDATING, not in REJECTED: the event RETRY is sent while the machine is in
  GENERATING and MAX_RETRIES while it is in VALIDATING, and the table has a transition for
  neither.
\<close>

theorem dispatch_not_json_ends_validating:
  "\<exists>h'. dispatch (fixed_runtime P) (mock_synapse t (Num 3) (js ''not json'')) cfg intent
          (initial_hook cfg 0) = Some (Completed, h')
     \<and> machineState h' = VALIDATING \<and> world h' = 3"
proof -
  let ?rt = "fixed_runtime P"
  define synapse where "synapse = mock_synapse t (Num 3) (js ''not json'')"
  define h1 where "h1 = (initial_hook cfg 0)\<lparr>stateContext :=
      (stateContext (initial_hook cfg 0))\<lparr>currentIntent := Some intent, sc_error := None\<rparr>\<rparr>"
  define h2 where "h2 = transition ?rt (js ''DISPATCH_NO_OPTIMISTIC'') None h1"
  define inf where "inf = (\<lambda>p (hk :: nat Hook). case provider_inference synapse p (world hk) of
                                       (r, w') \<Rightarrow> (r, hk\<lparr>world := w'\<rparr>))"
  define onR where "onR = (\<lambda>(attempt::nat) (errs::ValidationError list) (hk :: nat Hook).
                            transition ?rt (js ''RETRY'') None
                              (hk\<lparr>stateContext := (stateContext hk)\<lparr>retryCount := attempt\<rparr>\<rparr>))"
  define prompt where "prompt = compile_prompt cfg (state (initial_hook cfg 0)) intent (context' cfg)"
  have h2: "machineState h2 = GENERATING" "world h2 = 0"
    by (simp_all add: h2_def h1_def transition_fixed_runtime next_states initial_hook_def)
  have inv: "\<exists>r w'. inf p hk = (Inr r, w') \<and> \<not> success (validateResponse P r (schema cfg))
      \<and> machineState w' = GENERATING \<and> world w' = Suc (world hk)"
    if "machineState hk = GENERATING" for p hk
    using that
    by (simp add: inf_def synapse_def mock_synapse_def constant_provider_def
        validateResponse_no_boundaries [OF not_json_no_boundaries])
  have onr: "machineState (case Some onR of Some f \<Rightarrow> f a e hk | None \<Rightarrow> hk) = GENERATING
      \<and> world (case Some onR of Some f \<Rightarrow> f a e hk | None \<Rightarrow> hk) = world hk"
    if "machineState hk = GENERATING" for a e hk
    using that by (simp add: onR_def transition_fixed_runtime next_states)
  have n: "nat \<lceil>3::real\<rceil> = 3" by simp
  have "\<exists>res w'. correction_loop P prompt (schema cfg) inf (Some (Num 3)) (Some onR) 0 prompt [] h2
        = Some (Inr res, w')
      \<and> machineState w' = GENERATING \<and> world w' = world h2 + (3 - 0)
      \<and> \<not> cr_success res \<and> cr_data res = None \<and> cr_attempts res = 3
      \<and> length (cr_history res) = length ([]::AttemptRecord list) + (3 - 0)"
    by (rule loop_all_invalid [where I = "\<lambda>hk. machineState hk = GENERATING" and cnt = world,
          OF inv onr n])
      (use h2 in simp_all)
  then obtain res h3 where run:
    "correction_loop P prompt (schema cfg) inf (Some (Num 3)) (Some onR) 0 prompt [] h2
      = Some (Inr res, h3)"
    and h3: "machineState h3 = GENERATING" "world h3 = world h2 + (3 - 0)"
    and res: "\<not> cr_success res"
    by blast
  have exec: "executeWithCorrection (JSON_parse ?rt)
             \<lparr>p_prompt = prompt, p_schema = schema cfg, p_inference = inf,
              p_config = \<lparr>maxRetries = Present (config_maxRetries synapse),
                          onRetry = Present onR\<rparr>\<rparr> h2
        = Some (Inr res, h3)"
    using run
    by (simp add: executeWithCorrection_def spread_def synapse_def mock_synapse_def
        fixed_runtime_def)
  define h4 where "h4 = transition ?rt (js ''RESPONSE_RECEIVED'') None h3"
  define h5 where "h5 = transition ?rt (js ''MAX_RETRIES'') None
      (set_error (Error (js ''Failed to generate valid state after retries'')) h4)"
  have d: "dispatch ?rt synapse cfg intent (initial_hook cfg 0) = Some (Completed, h5)"
    unfolding synapse_def [symmetric] dispatch_def Let_def h1_def [symmetric] h2_def [symmetric] prompt_def [symmetric]
      inf_def [symmetric] onR_def [symmetric] exec
    using res by (simp add: h5_def h4_def)
  have "machineState h5 = VALIDATING" "world h5 = 3"
    using h3 h2
    by (simp_all add: h5_def h4_def transition_fixed_runtime next_states set_error_def)
  with d show ?thesis unfolding synapse_def by blast
qed

theorem dispatch_not_json_ends_validating_witness:
  "\<exists>h'. dispatch (fixed_runtime (\<lambda>s. Inl [])) (mock_synapse 0.7 (Num 3) (js ''not json''))
          todo_config (js ''Add buy milk'') (initial_hook todo_config 0) = Some (Completed, h')
     \<and> machineState h' = VALIDATING \<and> world h' = 3"
  by (rule dispatch_not_json_ends_validating)

section \<open>The deep clone\<close>

lemma obj_values_with_values:
  "length vs = length (obj_values ob) \<Longrightarrow> obj_values (with_values ob vs) = vs"
  by (cases ob) (simp_all add: obj_values_def with_values_def)

lemma rebuild_with_values:
  "length vs = length (obj_values ob) \<Longrightarrow> rebuild (with_values ob vs) ts = rebuild ob ts"
  by (cases ob) (simp_all add: obj_values_def with_values_def rebuild_def)

lemma those_map_cong:
  "those (map f vs) = Some ts \<Longrightarrow> (\<And>v t. v \<in> set vs \<Longrightarrow> f v = Some t \<Longrightarrow> g v = Some t)
    \<Longrightarrow> those (map g vs) = Some ts"
proof (induction vs arbitrary: ts)
  case Nil
  then show ?case by simp
next
  case (Cons v vs)
  then show ?case by (auto split: option.splits)
qed

lemma tree_prim: "is_primitive v \<Longrightarrow> tree n h v = prim_json v"
  by (cases n; cases v) (simp_all add: is_primitive_def)

lemma prim_json_Some: "is_primitive v \<Longrightarrow> \<exists>t. prim_json v = Some t"
  by (cases v) (simp_all add: is_primitive_def prim_json_def)

text \<open>More depth never changes a value that was read in full.\<close>

lemma tree_mono_Suc: "tree n h v = Some t \<Longrightarrow> tree (Suc n) h v = Some t"
proof (induction n arbitrary: v t)
  case 0
  then show ?case by (cases v) (simp_all add: prim_json_def)
next
  case (Suc n)
  show ?case
  proof (cases v)
    case (VRef a)
    with Suc.prems obtain ts where a: "a < length h"
      and ts: "those (map (tree n h) (obj_values (h ! a))) = Some ts" and t: "t = rebuild (h ! a) ts"
      by (auto split: if_splits)
    from those_map_cong [OF ts, of "tree (Suc n) h"] Suc.IH
    have "those (map (tree (Suc n) h) (obj_values (h ! a))) = Some ts" by blast
    with VRef a t show ?thesis by simp
  qed (use Suc.prems in simp_all)
qed

lemma tree_mono: "tree n h v = Some t \<Longrightarrow> n \<le> k \<Longrightarrow> tree k h v = Some t"
  by (induction k) (auto simp: le_Suc_eq simp del: tree.simps dest: tree_mono_Suc)


lemma agrees_append: "agrees k (acc @ ext) H \<Longrightarrow> agrees k acc H"
  unfolding agrees_def by (auto simp: nth_append)

lemma agrees_self: "agrees (length h) acc (h @ acc)"
  by (simp add: agrees_def nth_append)

lemma clone_list_correct:
  assumes f: "\<And>acc v v' acc'. f acc v = Some (v', acc') \<Longrightarrow>
      (\<exists>ext. acc' = acc @ ext)
      \<and> (\<exists>t. tree n src v = Some t \<and> (\<forall>H. agrees k acc' H \<longrightarrow> tree n H v' = Some t))"
  shows "clone_list f acc vs = Some (vs', acc') \<Longrightarrow>
      (\<exists>ext. acc' = acc @ ext) \<and> length vs' = length vs
      \<and> (\<exists>ts. those (map (tree n src) vs) = Some ts
            \<and> (\<forall>H. agrees k acc' H \<longrightarrow> those (map (tree n H) vs') = Some ts))"
proof (induction vs arbitrary: acc vs' acc')
  case Nil
  then show ?case by simp
next
  case (Cons v vs)
  from Cons.prems obtain v1 acc1 vs1 where
    fv: "f acc v = Some (v1, acc1)" and rest: "clone_list f acc1 vs = Some (vs1, acc')"
    and vs': "vs' = v1 # vs1"
    by (auto split: option.splits)
  from f [OF fv] obtain ext1 t where e1: "acc1 = acc @ ext1" and t: "tree n src v = Some t"
    and tH: "\<And>H. agrees k acc1 H \<Longrightarrow> tree n H v1 = Some t" by blast
  from Cons.IH [OF rest] obtain ext2 ts where e2: "acc' = acc1 @ ext2"
    and len: "length vs1 = length vs" and ts: "those (map (tree n src) vs) = Some ts"
    and tsH: "\<And>H. agrees k acc' H \<Longrightarrow> those (map (tree n H) vs1) = Some ts" by blast
  have "acc' = acc @ (ext1 @ ext2)" using e1 e2 by simp
  moreover have "those (map (tree n src) (v # vs)) = Some (t # ts)" using t ts by simp
  moreover have "those (map (tree n H) vs') = Some (t # ts)" if "agrees k acc' H" for H
  proof -
    from that e2 have "agrees k acc1 H" by (auto dest: agrees_append)
    with tH tsH that show ?thesis by (simp add: vs')
  qed
  ultimately show ?case using len vs' by auto
qed

lemma clone_correct:
  "clone n src acc v = Some (v', acc') \<Longrightarrow>
      (\<exists>ext. acc' = acc @ ext)
      \<and> (\<exists>t. tree n src v = Some t
            \<and> (\<forall>H. agrees (length src) acc' H \<longrightarrow> tree n H v' = Some t))"
proof (induction n arbitrary: acc v v' acc')
  case 0
  then show ?case by (cases v) (auto simp: prim_json_def)
next
  case (Suc n)
  show ?case
  proof (cases v)
    case (VRef a)
    with Suc.prems obtain vs1 acc1 where a: "a < length src"
      and cl: "clone_list (clone n src) acc (obj_values (src ! a)) = Some (vs1, acc1)"
      and v': "v' = VRef (length src + length acc1)"
      and acc': "acc' = acc1 @ [with_values (src ! a) vs1]"
      by (auto split: if_splits option.splits)
    from clone_list_correct [of "clone n src" n src "length src", OF Suc.IH cl]
    obtain ext ts where e: "acc1 = acc @ ext" and len: "length vs1 = length (obj_values (src ! a))"
      and ts: "those (map (tree n src) (obj_values (src ! a))) = Some ts"
      and tsH: "\<And>H. agrees (length src) acc1 H \<Longrightarrow> those (map (tree n H) vs1) = Some ts"
      by blast
    have 1: "acc' = acc @ (ext @ [with_values (src ! a) vs1])" using e acc' by simp
    have 2: "tree (Suc n) src v = Some (rebuild (src ! a) ts)" using VRef a ts by simp
    have 3: "tree (Suc n) H v' = Some (rebuild (src ! a) ts)" if ag: "agrees (length src) acc' H" for H
    proof -
      from ag acc' have ag1: "agrees (length src) acc1 H" by (auto dest: agrees_append)
      from ag acc' have "length src + length acc1 < length H"
        "H ! (length src + length acc1) = with_values (src ! a) vs1"
        unfolding agrees_def by (auto simp: nth_append dest: spec [of _ "length acc1"])
      with tsH [OF ag1] len show ?thesis
        by (simp add: v' obj_values_with_values rebuild_with_values)
    qed
    from 1 2 3 show ?thesis by blast
  qed (use Suc.prems in \<open>auto simp: prim_json_def\<close>)
qed

lemma length_mutate: "length h \<le> length (mutate mu h)"
  by (cases mu) simp_all

lemma length_fold_mutate: "length h \<le> length (fold mutate ms h)"
proof (induction ms arbitrary: h)
  case Nil
  then show ?case by simp
next
  case (Cons mu ms)
  have "length h \<le> length (mutate mu h)" by (rule length_mutate)
  also have "\<dots> \<le> length (fold mutate ms (mutate mu h))" by (rule Cons.IH)
  finally show ?case by simp
qed

lemma agrees_mutate:
  assumes "agrees k cells H"
    and "case mu of Write a _ \<Rightarrow> a < k \<or> k + length cells \<le> a | Alloc _ \<Rightarrow> True"
  shows "agrees k cells (mutate mu H)"
proof (cases mu)
  case (Write a ob)
  with assms show ?thesis unfolding agrees_def by (auto simp: nth_list_update)
next
  case (Alloc ob)
  with assms show ?thesis unfolding agrees_def by (auto simp: nth_append)
qed

lemma agrees_fold_mutate:
  "agrees k cells H \<Longrightarrow> writes_outside k (k + length cells) ms \<Longrightarrow> agrees k cells (fold mutate ms H)"
proof (induction ms arbitrary: H)
  case Nil
  then show ?case by simp
next
  case (Cons mu ms)
  from Cons.prems(2) have mu: "case mu of Write a _ \<Rightarrow> a < k \<or> k + length cells \<le> a | Alloc _ \<Rightarrow> True"
    and rest: "writes_outside k (k + length cells) ms"
    by (simp_all add: writes_outside_def)
  from Cons.IH [OF agrees_mutate [OF Cons.prems(1) mu] rest] show ?case by simp
qed

text \<open>
  A deep clone stands for the same JSON value as the original, and keeps standing for it
  whatever is written later to objects other than those the clone allocated.
\<close>

lemma deepClone_correct:
  assumes "deepClone h d = Some (c, h')"
  shows "\<exists>t. value_of h d = Some t
    \<and> (\<forall>ms. writes_outside (length h) (length h') ms \<longrightarrow> value_of (fold mutate ms h') c = Some t)"
proof (cases "is_primitive d")
  case True
  with assms have "c = d" by (simp add: deepClone_def)
  with True prim_json_Some [OF True] show ?thesis
    by (auto simp: value_of_def tree_prim)
next
  case False
  with assms obtain acc where cl: "clone (length h) h [] d = Some (c, acc)" and h': "h' = h @ acc"
    by (auto simp: deepClone_def split: option.splits)
  from clone_correct [OF cl] obtain t where t: "tree (length h) h d = Some t"
    and tH: "\<And>H. agrees (length h) acc H \<Longrightarrow> tree (length h) H c = Some t" by blast
  have "value_of (fold mutate ms h') c = Some t" if "writes_outside (length h) (length h') ms" for ms
  proof -
    from that have "agrees (length h) acc (fold mutate ms h')"
      unfolding h' by (intro agrees_fold_mutate agrees_self) simp
    from tH [OF this] have "tree (length h) (fold mutate ms h') c = Some t" .
    moreover have "length h \<le> length (fold mutate ms h')"
      using length_fold_mutate [of h' ms] h' by simp
    ultimately show ?thesis unfolding value_of_def by (rule tree_mono)
  qed
  with t show ?thesis by (auto simp: value_of_def)
qed


lemma clone_list_total:
  assumes f: "\<And>acc v t. v \<in> set vs \<Longrightarrow> tree n src v = Some t \<Longrightarrow> \<exists>r. f acc v = Some r"
  shows "those (map (tree n src) vs) = Some ts \<Longrightarrow> \<exists>r. clone_list f acc vs = Some r"
  using f
proof (induction vs arbitrary: acc ts)
  case Nil
  then show ?case by simp
next
  case (Cons v vs)
  from Cons.prems(1) obtain t ts' where t: "tree n src v = Some t"
    and ts': "those (map (tree n src) vs) = Some ts'"
    by (auto split: option.splits)
  from Cons.prems(2) [of v t acc] t obtain v1 acc1 where fv: "f acc v = Some (v1, acc1)" by auto
  from Cons.IH [OF ts', of acc1] Cons.prems(2)
  obtain r where "clone_list f acc1 vs = Some r" by auto
  with fv show ?case by (cases r) simp
qed

lemma clone_total: "tree n src v = Some t \<Longrightarrow> \<exists>r. clone n src acc v = Some r"
proof (induction n arbitrary: acc v t)
  case 0
  then show ?case by (cases v) (simp_all add: prim_json_def)
next
  case (Suc n)
  show ?case
  proof (cases v)
    case (VRef a)
    with Suc.prems obtain ts where a: "a < length src"
      and ts: "those (map (tree n src) (obj_values (src ! a))) = Some ts"
      by (auto split: if_splits)
    from clone_list_total [of "obj_values (src ! a)" n src "clone n src", OF _ ts, of acc] Suc.IH
    obtain r where "clone_list (clone n src) acc (obj_values (src ! a)) = Some r" by blast
    with VRef a show ?thesis by (cases r) simp
  qed simp_all
qed

lemma deepClone_total: "value_of h d = Some t \<Longrightarrow> \<exists>c h'. deepClone h d = Some (c, h')"
  using clone_total [of "length h" h d t "[]"]
  by (auto simp: deepClone_def value_of_def)

lemma tree_append: "tree n h v = Some t \<Longrightarrow> tree n (h @ ext) v = Some t"
proof (induction n arbitrary: v t)
  case 0
  then show ?case by simp
next
  case (Suc n)
  show ?case
  proof (cases v)
    case (VRef a)
    with Suc.prems obtain ts where a: "a < length h"
      and ts: "those (map (tree n h) (obj_values (h ! a))) = Some ts" and t: "t = rebuild (h ! a) ts"
      by (auto split: if_splits)
    from those_map_cong [OF ts, of "tree n (h @ ext)"] Suc.IH
    have "those (map (tree n (h @ ext)) (obj_values (h ! a))) = Some ts" by blast
    with VRef a t show ?thesis by (simp add: nth_append)
  qed (use Suc.prems in simp_all)
qed

lemma value_of_append:
  assumes "value_of h d = Some t"
  shows "value_of (h @ ext) d = Some t"
proof -
  from assms have "tree (length h) h d = Some t" by (simp add: value_of_def)
  then have "tree (length h) (h @ ext) d = Some t" by (rule tree_append)
  then have "tree (length (h @ ext)) (h @ ext) d = Some t" by (rule tree_mono) simp
  then show ?thesis by (simp add: value_of_def)
qed

lemma deepClone_extends: "deepClone h d = Some (c, h') \<Longrightarrow> \<exists>ext. h' = h @ ext"
  by (auto simp: deepClone_def split: if_splits option.splits)

section \<open>Properties of the rollback manager\<close>

lemma trim_snapshots_drop: "trim_snapshots mx snaps = drop (length snaps - mx) snaps"
proof (induction mx snaps rule: trim_snapshots.induct)
  case (1 mx snaps)
  show ?case
  proof (cases "length snaps > mx")
    case True
    then obtain s rest where sn: "snaps = s # rest" by (cases snaps) auto
    with True have "length rest \<ge> mx" by simp
    then have "Suc (length rest) - mx = Suc (length rest - mx)" by simp
    with 1 True sn show ?thesis
      by (simp add: trim_snapshots.simps [of mx "s # rest"])
  next
    case False
    then show ?thesis by (simp add: trim_snapshots.simps [of mx snaps])
  qed
qed

lemma snapshot_cases:
  assumes "snapshot rt d intent (m, h, w) = Some (sid, m', h', w')"
  obtains s where "snapshots m' = drop (Suc (length (snapshots m)) - maxSnapshots m) (snapshots m @ [s])"
    and "maxSnapshots m' = maxSnapshots m" and "snap_intent s = intent"
    and "\<And>m2. snapshot rt d intent (m2, h, w)
          = Some (sid, m2\<lparr>snapshots := drop (Suc (length (snapshots m2)) - maxSnapshots m2)
                                           (snapshots m2 @ [s])\<rparr>, h', w')"
  using assms
  by (auto simp: snapshot_def Let_def trim_snapshots_drop split: prod.splits option.splits)

lemma drop_last_window:
  "drop (Suc (length (drop (length xs - c) xs)) - c) (drop (length xs - c) xs @ [s])
     = drop (Suc (length xs) - c) (xs @ [s])"
  by (cases "length xs \<le> c") (auto simp: Suc_diff_le)

lemma snapshot_seq_window:
  assumes "snapshot_seq rt calls (m1, h, w) = Some (m1', h', w')"
    and "snapshots m1 = drop (length (snapshots m2) - maxSnapshots m1) (snapshots m2)"
    and "length (snapshots m2) + length calls \<le> maxSnapshots m2"
  shows "\<exists>m2'. snapshot_seq rt calls (m2, h, w) = Some (m2', h', w')
      \<and> snapshots m1' = drop (length (snapshots m2') - maxSnapshots m1) (snapshots m2')
      \<and> maxSnapshots m1' = maxSnapshots m1
      \<and> length (snapshots m2') = length (snapshots m2) + length calls
      \<and> map snap_intent (snapshots m2') = map snap_intent (snapshots m2) @ map snd calls"
  using assms
proof (induction calls arbitrary: m1 m2 h w)
  case Nil
  then show ?case by simp
next
  case (Cons c cs)
  from Cons.prems(1) obtain sid m1a ha wa where
    step: "snapshot rt (fst c) (snd c) (m1, h, w) = Some (sid, m1a, ha, wa)"
    and rest: "snapshot_seq rt cs (m1a, ha, wa) = Some (m1', h', w')"
    by (auto split: option.splits)
  from snapshot_cases [OF step] obtain s where
    s1: "snapshots m1a = drop (Suc (length (snapshots m1)) - maxSnapshots m1) (snapshots m1 @ [s])"
    and mx: "maxSnapshots m1a = maxSnapshots m1" and si: "snap_intent s = snd c"
    and any: "\<And>m2. snapshot rt (fst c) (snd c) (m2, h, w)
          = Some (sid, m2\<lparr>snapshots := drop (Suc (length (snapshots m2)) - maxSnapshots m2)
                                           (snapshots m2 @ [s])\<rparr>, ha, wa)"
    by blast
  define m2a where "m2a = m2\<lparr>snapshots := snapshots m2 @ [s]\<rparr>"
  have fit: "Suc (length (snapshots m2)) - maxSnapshots m2 = 0"
    using Cons.prems(3) by simp
  have step2: "snapshot rt (fst c) (snd c) (m2, h, w) = Some (sid, m2a, ha, wa)"
    using any [of m2] fit by (simp add: m2a_def)
  have win: "snapshots m1a = drop (length (snapshots m2a) - maxSnapshots m1a) (snapshots m2a)"
    using s1 Cons.prems(2) drop_last_window [of "snapshots m2" "maxSnapshots m1" s]
    by (simp add: m2a_def mx)
  have cap: "length (snapshots m2a) + length cs \<le> maxSnapshots m2a"
    using Cons.prems(3) by (simp add: m2a_def)
  from Cons.IH [OF rest win cap] obtain m2' where
    "snapshot_seq rt cs (m2a, ha, wa) = Some (m2', h', w')"
    "snapshots m1' = drop (length (snapshots m2') - maxSnapshots m1a) (snapshots m2')"
    "maxSnapshots m1' = maxSnapshots m1a"
    "length (snapshots m2') = length (snapshots m2a) + length cs"
    "map snap_intent (snapshots m2') = map snap_intent (snapshots m2a) @ map snd cs"
    by blast
  with step2 mx si show ?case by (simp add: m2a_def)
qed


lemma snapshot_extends:
  "snapshot rt d intent (m, h, w) = Some (sid, m', h', w') \<Longrightarrow> \<exists>ext. h' = h @ ext"
  by (auto simp: snapshot_def Let_def split: prod.splits option.splits dest: deepClone_extends)

lemma snapshot_total:
  assumes "value_of h d \<noteq> None"
  shows "\<exists>sid m' h' w'. snapshot rt d intent (m, h, w) = Some (sid, m', h', w')"
proof -
  from assms obtain t where "value_of h d = Some t" by auto
  from deepClone_total [OF this] obtain c h' where "deepClone h d = Some (c, h')" by blast
  then show ?thesis
    by (simp add: snapshot_def Let_def split: prod.splits)
qed

text \<open>
  A sequence of snapshot calls returns when the data of every call stand for a JSON value in
  the store the sequence starts from.
\<close>

lemma snapshot_seq_total:
  "list_all (\<lambda>c. value_of h (fst c) \<noteq> None) calls
    \<Longrightarrow> \<exists>m' h' w'. snapshot_seq rt calls (m, h, w) = Some (m', h', w')"
proof (induction calls arbitrary: m h w)
  case Nil
  then show ?case by simp
next
  case (Cons c cs)
  from Cons.prems have c: "value_of h (fst c) \<noteq> None"
    and cs: "list_all (\<lambda>c. value_of h (fst c) \<noteq> None) cs" by simp_all
  from snapshot_total [OF c, of rt "snd c" m w] obtain sid m1 h1 w1 where
    step: "snapshot rt (fst c) (snd c) (m, h, w) = Some (sid, m1, h1, w1)" by blast
  from snapshot_extends [OF step] obtain ext where h1: "h1 = h @ ext" by blast
  have "list_all (\<lambda>c. value_of h1 (fst c) \<noteq> None) cs"
    using cs unfolding h1 list_all_iff by (auto dest: value_of_append)
  from Cons.IH [OF this, of m1 w1] step show ?case by simp
qed

text \<open>
  Claim C7. Every sequence of snapshot calls on a new manager returns (the data of each call
  standing for a JSON value in the store), and afterwards the manager retains at most
  \<open>maxSnapshots\<close> entries. They are the most recent ones: the last \<open>maxSnapshots\<close> of the
  entries that a manager with room for all of them retains, which are one per call, in the
  order of the calls.
\<close>

theorem snapshot_seq_bounded:
  assumes "list_all (\<lambda>c. value_of h (fst c) \<noteq> None) calls"
  shows "\<exists>m h' w'. snapshot_seq rt calls (createRollbackManager cfg, h, w) = Some (m, h', w')
    \<and> length (snapshots m) \<le> maxSnapshots (createRollbackManager cfg)
    \<and> (\<exists>m_all. snapshot_seq rt calls
                   (createRollbackManager \<lparr>cfg_maxSnapshots = Some (length calls)\<rparr>, h, w)
                 = Some (m_all, h', w')
         \<and> length (snapshots m_all) = length calls
         \<and> map snap_intent (snapshots m_all) = map snd calls
         \<and> snapshots m = drop (length calls - maxSnapshots (createRollbackManager cfg))
                            (snapshots m_all))"
proof -
  let ?m1 = "createRollbackManager cfg"
  let ?m2 = "createRollbackManager \<lparr>cfg_maxSnapshots = Some (length calls)\<rparr>"
  from snapshot_seq_total [OF assms, of rt ?m1 w] obtain m h' w' where
    run1: "snapshot_seq rt calls (?m1, h, w) = Some (m, h', w')" by blast
  have a: "snapshots ?m1 = drop (length (snapshots ?m2) - maxSnapshots ?m1) (snapshots ?m2)"
    by (simp add: createRollbackManager_def)
  have b: "length (snapshots ?m2) + length calls \<le> maxSnapshots ?m2"
    by (simp add: createRollbackManager_def)
  from snapshot_seq_window [OF run1 a b] obtain m_all where
    run: "snapshot_seq rt calls (?m2, h, w) = Some (m_all, h', w')"
    and win: "snapshots m = drop (length (snapshots m_all) - maxSnapshots ?m1) (snapshots m_all)"
    and len: "length (snapshots m_all) = length (snapshots ?m2) + length calls"
    and ints: "map snap_intent (snapshots m_all) = map snap_intent (snapshots ?m2) @ map snd calls"
    by blast
  have len': "length (snapshots m_all) = length calls"
    using len by (simp add: createRollbackManager_def)
  have "length (snapshots m) \<le> maxSnapshots ?m1"
    using win len' by simp
  moreover have "map snap_intent (snapshots m_all) = map snd calls"
    using ints by (simp add: createRollbackManager_def)
  ultimately show ?thesis using run1 run win len' by auto
qed

theorem snapshot_seq_bounded_witness:
  "\<exists>m h' w'. snapshot_seq (fixed_runtime (\<lambda>s. Inl []))
          [(VNum 1, js ''One''), (VNum 2, js ''Two''), (VNum 3, js ''Three''), (VNum 4, js ''Four'')]
          (createRollbackManager \<lparr>cfg_maxSnapshots = Some 3\<rparr>, [], 0::nat) = Some (m, h', w')
      \<and> length (snapshots m) \<le> 3
      \<and> map snap_intent (snapshots m) = [js ''Two'', js ''Three'', js ''Four'']"
proof -
  let ?calls = "[(VNum 1, js ''One''), (VNum 2, js ''Two''), (VNum 3, js ''Three''), (VNum 4, js ''Four'')]"
  let ?rt = "fixed_runtime (\<lambda>s. Inl []) :: nat Runtime"
  let ?m0 = "createRollbackManager \<lparr>cfg_maxSnapshots = Some 3\<rparr>"
  have vals: "list_all (\<lambda>c. value_of [] (fst c) \<noteq> None) ?calls"
    by (simp add: value_of_def prim_json_def)
  have mx: "maxSnapshots ?m0 = 3" by (simp add: createRollbackManager_def)
  note r = snapshot_seq_bounded [OF vals, of ?rt "\<lparr>cfg_maxSnapshots = Some 3\<rparr>" "0::nat"]
  from r obtain m where "\<exists>h' w'. snapshot_seq ?rt ?calls (?m0, [], 0::nat) = Some (m, h', w')
    \<and> length (snapshots m) \<le> maxSnapshots ?m0
    \<and> (\<exists>m_all. snapshot_seq ?rt ?calls
                   (createRollbackManager \<lparr>cfg_maxSnapshots = Some (length ?calls)\<rparr>, [], 0)
                 = Some (m_all, h', w')
         \<and> length (snapshots m_all) = length ?calls
         \<and> map snap_intent (snapshots m_all) = map snd ?calls
         \<and> snapshots m = drop (length ?calls - maxSnapshots ?m0) (snapshots m_all))" ..
  then obtain h' where "\<exists>w'. snapshot_seq ?rt ?calls (?m0, [], 0::nat) = Some (m, h', w')
    \<and> length (snapshots m) \<le> maxSnapshots ?m0
    \<and> (\<exists>m_all. snapshot_seq ?rt ?calls
                   (createRollbackManager \<lparr>cfg_maxSnapshots = Some (length ?calls)\<rparr>, [], 0)
                 = Some (m_all, h', w')
         \<and> length (snapshots m_all) = length ?calls
         \<and> map snap_intent (snapshots m_all) = map snd ?calls
         \<and> snapshots m = drop (length ?calls - maxSnapshots ?m0) (snapshots m_all))" ..
  then obtain w' where all: "snapshot_seq ?rt ?calls (?m0, [], 0::nat) = Some (m, h', w')
    \<and> length (snapshots m) \<le> maxSnapshots ?m0
    \<and> (\<exists>m_all. snapshot_seq ?rt ?calls
                   (createRollbackManager \<lparr>cfg_maxSnapshots = Some (length ?calls)\<rparr>, [], 0)
                 = Some (m_all, h', w')
         \<and> length (snapshots m_all) = length ?calls
         \<and> map snap_intent (snapshots m_all) = map snd ?calls
         \<and> snapshots m = drop (length ?calls - maxSnapshots ?m0) (snapshots m_all))" ..
  from all have run: "snapshot_seq ?rt ?calls (?m0, [], 0::nat) = Some (m, h', w')" ..
  from all have a: "length (snapshots m) \<le> maxSnapshots ?m0" by (elim conjE)
  from all have "\<exists>m_all. snapshot_seq ?rt ?calls
                   (createRollbackManager \<lparr>cfg_maxSnapshots = Some (length ?calls)\<rparr>, [], 0)
                 = Some (m_all, h', w')
         \<and> length (snapshots m_all) = length ?calls
         \<and> map snap_intent (snapshots m_all) = map snd ?calls
         \<and> snapshots m = drop (length ?calls - maxSnapshots ?m0) (snapshots m_all)"
    by (elim conjE)
  then obtain m_all where "snapshot_seq ?rt ?calls
                   (createRollbackManager \<lparr>cfg_maxSnapshots = Some (length ?calls)\<rparr>, [], 0)
                 = Some (m_all, h', w')
         \<and> length (snapshots m_all) = length ?calls
         \<and> map snap_intent (snapshots m_all) = map snd ?calls
         \<and> snapshots m = drop (length ?calls - maxSnapshots ?m0) (snapshots m_all)" ..
  then have bc: "map snap_intent (snapshots m_all) = map snd ?calls
         \<and> snapshots m = drop (length ?calls - maxSnapshots ?m0) (snapshots m_all)"
    by (elim conjE) (rule conjI)
  from bc have b: "map snap_intent (snapshots m_all) = map snd ?calls" ..
  from bc have c: "snapshots m = drop (length ?calls - maxSnapshots ?m0) (snapshots m_all)" ..
  have len: "length ?calls - 3 = 1" by simp
  have "map snap_intent (snapshots m) = map snap_intent (drop 1 (snapshots m_all))"
    by (simp only: c mx len)
  also have "\<dots> = drop 1 (map snap_intent (snapshots m_all))"
    by (rule drop_map [symmetric])
  also have "\<dots> = drop 1 (map snd ?calls)"
    by (simp only: b)
  also have "\<dots> = [js ''Two'', js ''Three'', js ''Four'']"
    by simp
  finally have ints: "map snap_intent (snapshots m) = [js ''Two'', js ''Three'', js ''Four'']" .
  have le: "length (snapshots m) \<le> 3" using a mx by simp
  show ?thesis
    by (rule exI [of _ m], rule exI [of _ h'], rule exI [of _ w']) (intro conjI run le ints)
qed

text \<open>
  Claim C10. The count of available rollbacks is the number of retained snapshots less
  one, and 0 when there is none: the newest snapshot does not count. After exactly one
  snapshot on a new manager the count is 0, whatever \<open>maxSnapshots\<close> is.
\<close>

theorem availableRollbacks_count:
  "availableRollbacks m = max 0 (int (length (snapshots m)) - 1)
   \<and> availableRollbacks m = int (length (snapshots m) - 1)
   \<and> (value_of h d \<noteq> None \<longrightarrow>
        (\<exists>sid m' h' w'. snapshot rt d intent (createRollbackManager cfg, h, w) = Some (sid, m', h', w')
           \<and> availableRollbacks m' = 0))"
proof -
  have "\<exists>sid m' h' w'. snapshot rt d intent (createRollbackManager cfg, h, w) = Some (sid, m', h', w')
           \<and> availableRollbacks m' = 0"
    if "value_of h d \<noteq> None"
  proof -
    from snapshot_total [OF that, of rt intent "createRollbackManager cfg" w]
    obtain sid m' h' w' where
      run: "snapshot rt d intent (createRollbackManager cfg, h, w) = Some (sid, m', h', w')" by blast
    from snapshot_cases [OF run] obtain s where
      "snapshots m' = drop (Suc (length (snapshots (createRollbackManager cfg)))
          - maxSnapshots (createRollbackManager cfg)) (snapshots (createRollbackManager cfg) @ [s])"
      by blast
    then have "length (snapshots m') \<le> 1" by (simp add: createRollbackManager_def)
    then have "availableRollbacks m' = 0" by (simp add: availableRollbacks_def)
    with run show ?thesis by blast
  qed
  then show ?thesis by (auto simp: availableRollbacks_def)
qed

theorem availableRollbacks_count_witness:
  "\<exists>sid m' h' w'. snapshot (fixed_runtime (\<lambda>s. Inl [])) (VNum 1) (js ''One'')
        (createRollbackManager \<lparr>cfg_maxSnapshots = None\<rparr>, [], 0::nat) = Some (sid, m', h', w')
     \<and> availableRollbacks m' = 0"
proof -
  have v: "value_of [] (VNum 1) \<noteq> None" by (simp add: value_of_def prim_json_def)
  from availableRollbacks_count [of m "[]" "VNum 1" "fixed_runtime (\<lambda>s. Inl [])" "js ''One''"
      "\<lparr>cfg_maxSnapshots = None\<rparr>" "0::nat"] v
  show ?thesis by blast
qed

text \<open>
  Claim C8. For every state value that stands for a JSON value in the store, the snapshot
  call returns, and the data it stores stand for that JSON value whatever is written
  afterwards to the objects that existed before the call (the original object and all it
  reaches are among them) or to objects allocated after it: the snapshot shares no object
  with the original.
\<close>

theorem snapshot_deep_copy:
  assumes "value_of h d = Some t" and "0 < maxSnapshots m"
  shows "\<exists>sid m' h' w'. snapshot rt d intent (m, h, w) = Some (sid, m', h', w')
     \<and> (\<forall>ms. writes_outside (length h) (length h') ms \<longrightarrow>
           value_of (fold mutate ms h') (snap_data (last (snapshots m'))) = Some t)"
proof -
  from deepClone_total [OF assms(1)] obtain c h' where dc: "deepClone h d = Some (c, h')" by blast
  from deepClone_correct [OF dc] assms(1)
  have fr: "\<forall>ms. writes_outside (length h) (length h') ms \<longrightarrow> value_of (fold mutate ms h') c = Some t"
    by auto
  obtain t1 w1 where n1: "Date_now rt w = (t1, w1)" by (cases "Date_now rt w")
  obtain r w2 where n2: "Math_random36 rt w1 = (r, w2)" by (cases "Math_random36 rt w1")
  obtain t2 w3 where n3: "Date_now rt w2 = (t2, w3)" by (cases "Date_now rt w2")
  define sid where "sid = js ''snap_'' @ dec t1 @ js ''_'' @ r"
  define s where "s = \<lparr>snap_id = sid, snap_timestamp = t2, snap_data = c, snap_intent = intent\<rparr>"
  define m' where "m' = m\<lparr>snapshots := trim_snapshots (maxSnapshots m) (snapshots m @ [s])\<rparr>"
  have run: "snapshot rt d intent (m, h, w) = Some (sid, m', h', w3)"
    by (simp add: snapshot_def n1 n2 n3 dc Let_def sid_def s_def m'_def)
  have "last (snapshots m') = s"
    using assms(2) by (simp add: m'_def trim_snapshots_drop)
  then have "snap_data (last (snapshots m')) = c" by (simp add: s_def)
  with fr run show ?thesis by auto
qed


theorem snapshot_deep_copy_witness:
  "\<exists>sid m' h' w'.
      snapshot (fixed_runtime (\<lambda>s. Inl [])) (VRef 1) (js ''Snapshot'')
        (createRollbackManager \<lparr>cfg_maxSnapshots = None\<rparr>,
         [HArr [VNum 1, VNum 2, VNum 3], HObj [(js ''items'', VRef 0)]], 0::nat)
        = Some (sid, m', h', w')
      \<and> value_of (fold mutate [Write 0 (HArr [VNum 1, VNum 2, VNum 3, VNum 4])] h')
           (snap_data (last (snapshots m')))
         = Some (JObj [(js ''items'', JArr [JNum 1, JNum 2, JNum 3])])"
proof -
  let ?h = "[HArr [VNum 1, VNum 2, VNum 3], HObj [(js ''items'', VRef 0)]]"
  let ?t = "JObj [(js ''items'', JArr [JNum 1, JNum 2, JNum 3])]"
  let ?m = "createRollbackManager \<lparr>cfg_maxSnapshots = None\<rparr>"
  let ?ms = "[Write 0 (HArr [VNum 1, VNum 2, VNum 3, VNum 4])]"
  have v: "value_of ?h (VRef 1) = Some ?t"
    by (simp add: value_of_def obj_values_def rebuild_def prim_json_def)
  have mx: "0 < maxSnapshots ?m" by (simp add: createRollbackManager_def)
  from snapshot_deep_copy [OF v mx, of "fixed_runtime (\<lambda>s. Inl [])" "js ''Snapshot''" "0::nat"]
  obtain sid m' h' w' where
    run: "snapshot (fixed_runtime (\<lambda>s. Inl [])) (VRef 1) (js ''Snapshot'') (?m, ?h, 0::nat)
        = Some (sid, m', h', w')"
    and fr: "\<forall>ms. writes_outside (length ?h) (length h') ms \<longrightarrow>
           value_of (fold mutate ms h') (snap_data (last (snapshots m'))) = Some ?t"
    by blast
  have "writes_outside (length ?h) (length h') ?ms" by (simp add: writes_outside_def)
  with fr have "value_of (fold mutate ?ms h') (snap_data (last (snapshots m'))) = Some ?t"
    by blast
  with run show ?thesis by blast
qed

section \<open>The hook and the rollback manager\<close>

lemma createAuditEntry_part:
  assumes "leave_alone part rt synapse cfg"
  shows "part (snd (createAuditEntry rt a b ev pl w)) = part w"
proof -
  obtain t1 w1 where n1: "Date_now rt w = (t1, w1)" by (cases "Date_now rt w")
  obtain r w2 where n2: "Math_random36 rt w1 = (r, w2)" by (cases "Math_random36 rt w1")
  obtain t2 w3 where n3: "Date_now rt w2 = (t2, w3)" by (cases "Date_now rt w2")
  from assms have d: "\<And>w. part (snd (Date_now rt w)) = part w"
    and m: "\<And>w. part (snd (Math_random36 rt w)) = part w"
    by (simp_all add: leave_alone_def)
  from d [of w] n1 have "part w1 = part w" by simp
  moreover from m [of w1] n2 have "part w2 = part w1" by simp
  moreover from d [of w2] n3 have "part w3 = part w2" by simp
  ultimately show ?thesis by (simp add: createAuditEntry_def n1 n2 n3)
qed

lemma transition_part:
  assumes "leave_alone part rt synapse cfg"
  shows "part (world (transition rt ev pl hk)) = part (world hk)"
proof (cases "getNextState (machineState hk) ev")
  case None
  then show ?thesis by (simp add: transition_def)
next
  case (Some n)
  obtain e w' where c: "createAuditEntry rt (machineState hk) n ev pl (world hk) = (e, w')"
    by (cases "createAuditEntry rt (machineState hk) n ev pl (world hk)")
  with createAuditEntry_part [OF assms, of "machineState hk" n ev pl "world hk"]
  have "part w' = part (world hk)" by simp
  with Some c show ?thesis by (simp add: transition_def)
qed

lemma commit_part:
  assumes "leave_alone part rt synapse cfg"
  shows "part (world (commit cfg newState oldState hk)) = part (world hk)"
  using assms by (cases "onChange cfg") (simp_all add: commit_def leave_alone_def)

lemma set_error_world: "world (set_error e hk) = world hk"
  by (simp add: set_error_def)

lemma resume_dispatch_part:
  assumes "leave_alone part rt synapse cfg"
  shows "part (world (resume_dispatch rt cfg newState oldState confirmed hk)) = part (world hk)"
  by (simp add: resume_dispatch_def Let_def transition_part [OF assms] commit_part [OF assms])

text \<open>
  Claim C3. The hook holds no rollback manager: a dispatch changes the world outside only
  through the clock, the random source, the provider and the callbacks \<open>onChange\<close> and
  \<open>onGate\<close>. So a rollback manager that those leave alone is, when the dispatch returns,
  what it was before it: no snapshot is taken, at the beginning or later. \<open>part\<close> selects
  the manager from the world. A dispatch returns unless \<open>maxRetries\<close> is \<open>Infinity\<close>.
\<close>

theorem dispatch_leaves_rollback_manager:
  assumes la: "leave_alone part rt synapse cfg"
  shows "case dispatch rt synapse cfg intent h of
           Some (st, h') \<Rightarrow> part (world h') = part (world h)
         | None \<Rightarrow> config_maxRetries synapse = PosInfinity"
proof -
  define h1 where "h1 = h\<lparr>stateContext := (stateContext h)\<lparr>currentIntent := Some intent, sc_error := None\<rparr>\<rparr>"
  define h2 where "h2 = transition rt (js ''DISPATCH_NO_OPTIMISTIC'') None h1"
  define inf where "inf = (\<lambda>p (hk :: 'a Hook). case provider_inference synapse p (world hk) of
                                       (r, w') \<Rightarrow> (r, hk\<lparr>world := w'\<rparr>))"
  define onR where "onR = (\<lambda>(attempt::nat) (errs::ValidationError list) (hk :: 'a Hook).
                            transition rt (js ''RETRY'') None
                              (hk\<lparr>stateContext := (stateContext hk)\<lparr>retryCount := attempt\<rparr>\<rparr>))"
  define prompt where "prompt = compile_prompt cfg (state h) intent (context' cfg)"
  define I where "I = (\<lambda>hk :: 'a Hook. part (world hk) = part (world h))"
  define run where "run = correction_loop (JSON_parse rt) prompt (schema cfg) inf
      (Some (config_maxRetries synapse)) (Some onR) 0 prompt [] h2"
  have h2: "I h2"
    by (simp add: I_def h2_def h1_def transition_part [OF la])
  have inf: "I (snd (inf p hk))" if "I hk" for p hk
  proof -
    obtain r w' where r: "provider_inference synapse p (world hk) = (r, w')"
      by (cases "provider_inference synapse p (world hk)")
    from la have "part (snd (provider_inference synapse p (world hk))) = part (world hk)"
      by (simp add: leave_alone_def)
    with r that show ?thesis by (simp add: inf_def I_def)
  qed
  have onr: "I (case Some onR of Some f \<Rightarrow> f a e hk | None \<Rightarrow> hk)" if "I hk" for a e hk
    using that by (simp add: onR_def I_def transition_part [OF la])
  have exec: "executeWithCorrection (JSON_parse rt)
             \<lparr>p_prompt = prompt, p_schema = schema cfg, p_inference = inf,
              p_config = \<lparr>maxRetries = Present (config_maxRetries synapse),
                          onRetry = Present onR\<rparr>\<rparr> h2
        = run"
    by (simp add: executeWithCorrection_def spread_def run_def)
  have d: "dispatch rt synapse cfg intent h =
      (case run of
           None \<Rightarrow> None
         | Some (Inl e, h3) \<Rightarrow> Some (Completed, transition rt (js ''ERROR'') None (set_error e h3))
         | Some (Inr result, h3) \<Rightarrow> Some
             (let h4 = transition rt (js ''RESPONSE_RECEIVED'') None h3
              in if \<not> cr_success result \<or> cr_data result = None \<or> cr_data result = Some JNull then
                   (Completed,
                    transition rt (js ''MAX_RETRIES'') None
                      (set_error (Error (js ''Failed to generate valid state after retries'')) h4))
                 else
                   (let h5 = transition rt (js ''VALID'') None h4;
                        newState = the (cr_data result);
                        conf = calculateConfidence (rounding rt) (state h) newState intent None;
                        h6 = h5\<lparr>stateContext := (stateContext h5)\<lparr>confidence := conf\<rparr>\<rparr>;
                        isDestructive = isDestructiveChange (rounding rt) (state h) newState;
                        needsGating = (conf < (case confidenceThreshold cfg of
                             Some t \<Rightarrow> t | None \<Rightarrow> config_confidenceThreshold synapse)
                           \<or> isDestructive)
                    in if needsGating then
                         (let h7 = transition rt (js ''NEEDS_CONFIRMATION'') None h6
                          in case onGate cfg of
                               Some g \<Rightarrow>
                                 (case g newState (state h) conf (world h7) of
                                    (Inl e, w') \<Rightarrow>
                                      (Completed,
                                       transition rt (js ''ERROR'') None
                                         (set_error e (h7\<lparr>world := w'\<rparr>)))
                                  | (Inr confirmed, w') \<Rightarrow>
                                      (let h8 = h7\<lparr>world := w'\<rparr>;
                                           h9 = (if confirmed
                                                 then transition rt (js ''USER_CONFIRMED'') None
                                                        (commit cfg newState (state h) h8)
                                                 else transition rt (js ''USER_REJECTED'') None h8)
                                       in (Completed, transition rt (js ''RESET'') None h9)))
                             | None \<Rightarrow> (AwaitingConfirmation, h7\<lparr>pendingState := Some newState\<rparr>))
                       else
                         (let h7 = transition rt (js ''CONFIDENT'') None
                                     (commit cfg newState (state h) h6)
                          in (Completed, transition rt (js ''RESET'') None h7)))))"
    unfolding dispatch_def Let_def h1_def [symmetric] h2_def [symmetric] prompt_def [symmetric]
      inf_def [symmetric] onR_def [symmetric] exec ..
  have callback: "part w' = part (world hk)"
    if "onGate cfg = Some g" "g a b c (world hk) = (r, w')" for g a b c hk r w'
  proof -
    from la that(1) have "part (snd (g a b c (world hk))) = part (world hk)"
      unfolding leave_alone_def by blast
    with that(2) show ?thesis by simp
  qed
  show ?thesis
  proof (cases run)
    case None
    have "ToNumber (Some (config_maxRetries synapse)) = PosInfinity"
    proof (rule ccontr)
      assume "ToNumber (Some (config_maxRetries synapse)) \<noteq> PosInfinity"
      from loop_total [OF this, of "JSON_parse rt" prompt "schema cfg" inf "Some onR" 0 prompt "[]" h2]
      show False using None by (simp add: run_def)
    qed
    then have "config_maxRetries synapse = PosInfinity" by (simp add: ToNumber_def)
    with None d show ?thesis by simp
  next
    case (Some y)
    obtain res h3 where y: "y = (res, h3)" by (cases y)
    from Some y have "correction_loop (JSON_parse rt) prompt (schema cfg) inf
        (Some (config_maxRetries synapse)) (Some onR) 0 prompt [] h2 = Some (res, h3)"
      by (simp add: run_def)
    from loop_preserves [where I = I, OF inf onr h2 this]
    have h3: "part (world h3) = part (world h)" by (simp add: I_def)
    have "case dispatch rt synapse cfg intent h of
           Some (st, h') \<Rightarrow> part (world h') = part (world h3)
         | None \<Rightarrow> False"
      unfolding d Some y
      by (auto simp: Let_def transition_part [OF la] commit_part [OF la] set_error_world
          split: sum.splits option.splits prod.splits dest: callback)
    with h3 show ?thesis by (auto split: option.splits)
  qed
qed

theorem dispatch_leaves_rollback_manager_witness:
  "\<exists>st h'. dispatch (fixed_runtime (\<lambda>s. Inl [])) (app_synapse 0.7 (Num 3) (js ''not json''))
          todo_config (js ''Add buy milk'')
          (initial_hook todo_config (createRollbackManager \<lparr>cfg_maxSnapshots = None\<rparr>, 0::nat))
        = Some (st, h')
     \<and> fst (world h') = createRollbackManager \<lparr>cfg_maxSnapshots = None\<rparr>
     \<and> getLastGoodState (fst (world h')) [] = Some (None, [])"
proof -
  let ?rt = "fixed_runtime (\<lambda>s. Inl []) :: (RollbackManager \<times> nat) Runtime"
  let ?syn = "app_synapse 0.7 (Num 3) (js ''not json'') :: (RollbackManager \<times> nat) SynapseContext"
  let ?cfg = "todo_config :: (RollbackManager \<times> nat) SemanticStateConfig"
  let ?m = "createRollbackManager \<lparr>cfg_maxSnapshots = None\<rparr>"
  let ?d = "dispatch ?rt ?syn ?cfg (js ''Add buy milk'') (initial_hook ?cfg (?m, 0::nat))"
  have la: "leave_alone fst ?rt ?syn ?cfg"
    by (simp add: leave_alone_def fixed_runtime_def app_synapse_def beside_def todo_config_def
        split: prod.splits)
  have w0: "fst (world (initial_hook ?cfg (?m, 0::nat))) = ?m"
    by (simp add: initial_hook_def)
  have fin: "config_maxRetries ?syn \<noteq> PosInfinity"
    by (simp add: app_synapse_def)
  have last: "getLastGoodState ?m [] = Some (None, [])"
    by (simp add: getLastGoodState_def createRollbackManager_def)
  from dispatch_leaves_rollback_manager [OF la, where intent = "js ''Add buy milk''"
      and h = "initial_hook ?cfg (?m, 0::nat)"]
  have c: "case ?d of Some (st, h') \<Rightarrow> fst (world h') = ?m
         | None \<Rightarrow> config_maxRetries ?syn = PosInfinity"
    by (simp only: w0)
  show ?thesis
  proof (cases ?d)
    case None
    with c fin show ?thesis by (simp only: option.case)
  next
    case (Some y)
    obtain st h' where y: "y = (st, h')" by (cases y)
    from Some y have d: "?d = Some (st, h')" by (simp only:)
    from c d have f: "fst (world h') = ?m" by (simp only: option.case prod.case)
    from last f have g: "getLastGoodState (fst (world h')) [] = Some (None, [])" by (simp only:)
    let ?Q = "\<lambda>st h'. ?d = Some (st, h') \<and> fst (world h') = ?m
        \<and> getLastGoodState (fst (world h')) [] = Some (None, [])"
    from d f g have "?Q st h'" by (intro conjI)
    then have "\<exists>h'. ?Q st h'" by (rule exI [of "?Q st" h'])
    then show ?thesis by (rule exI [of "\<lambda>st. \<exists>h'. ?Q st h'" st])
  qed
qed

end
